theory Spec2Isabelle
  imports Main "HOL-Library.Sublist"
begin

section \<open>Values that cross the extension's boundaries\<close>

text \<open>
  The content script receives its settings from \<^verbatim>\<open>chrome.storage.sync\<close> and from popup
  messages. Both carry JSON values. A number is modelled by its integer value
  (\<open>JInt\<close>, an integer below \<open>10^21\<close> in magnitude, which \<^verbatim>\<open>String\<close> prints in plain
  decimal digits); strings are byte strings.
\<close>

datatype jsval = JUndefined | JNull | JBool bool | JInt int | JStr string

text \<open>Decimal digits of a natural number, most significant digit first.\<close>

definition digitChar :: "nat \<Rightarrow> char" where
  "digitChar d = ''0123456789'' ! d"

fun digits :: "nat \<Rightarrow> string" where
  "digits n = (if n < 10 then [digitChar n] else digits (n div 10) @ [digitChar (n mod 10)])"

declare digits.simps [simp del]

text \<open>\<^verbatim>\<open>String(n)\<close> and template interpolation of an integer-valued number.\<close>

definition numberToString :: "int \<Rightarrow> string" where
  "numberToString i = (if i < 0 then CHR ''-'' # digits (nat (- i)) else digits (nat i))"

text \<open>\<^verbatim>\<open>String(value)\<close>.\<close>

fun toString :: "jsval \<Rightarrow> string" where
  "toString JUndefined = ''undefined''"
| "toString JNull = ''null''"
| "toString (JBool b) = (if b then ''true'' else ''false'')"
| "toString (JInt i) = numberToString i"
| "toString (JStr s) = s"

text \<open>\<^verbatim>\<open>Boolean(value)\<close>.\<close>

fun toBoolean :: "jsval \<Rightarrow> bool" where
  "toBoolean JUndefined = False"
| "toBoolean JNull = False"
| "toBoolean (JBool b) = b"
| "toBoolean (JInt i) = (i \<noteq> 0)"
| "toBoolean (JStr s) = (s \<noteq> [])"

subsection \<open>\<^verbatim>\<open>Number.parseInt(string, 10)\<close>\<close>

text \<open>
  The ASCII members of the white space that \<^verbatim>\<open>parseInt\<close> skips: tab, line feed,
  vertical tab, form feed, carriage return and space.
\<close>

definition isWhiteSpace :: "char \<Rightarrow> bool" where
  "isWhiteSpace c = (c \<in> set [CHR 0x09, CHR 0x0A, CHR 0x0B, CHR 0x0C, CHR 0x0D, CHR 0x20])"

definition isDigit :: "char \<Rightarrow> bool" where
  "isDigit c = (c \<in> set ''0123456789'')"

definition digitValue :: "char \<Rightarrow> nat" where
  "digitValue c = of_char c - 48"

definition digitsValue :: "string \<Rightarrow> nat" where
  "digitsValue z = foldl (\<lambda>a c. 10 * a + digitValue c) 0 z"

text \<open>
  The result of \<^verbatim>\<open>parseInt\<close> is \<open>NaN\<close> (no digit after the optional sign) or the number
  nearest to the integer the digits denote, which is an infinity when that integer
  is too large for a double.
\<close>

datatype parsed = NaN | Num int

definition parseInt10 :: "string \<Rightarrow> parsed" where
  "parseInt10 inputString =
     (let s = dropWhile isWhiteSpace inputString;
          negative = (s \<noteq> [] \<and> hd s = CHR ''-'');
          s' = (if s \<noteq> [] \<and> (hd s = CHR ''+'' \<or> hd s = CHR ''-'') then tl s else s);
          z = takeWhile isDigit s'
      in if z = [] then NaN
         else Num ((if negative then - 1 else 1) * int (digitsValue z)))"

text \<open>
  \<^verbatim>\<open>Number.isFinite\<close>: an integer rounds to a finite double exactly when its magnitude
  is below \<open>2^1024 - 2^970\<close>, half way between the largest double and \<open>2^1024\<close>.
\<close>

fun isFinite :: "parsed \<Rightarrow> bool" where
  "isFinite NaN = False"
| "isFinite (Num i) = (\<bar>i\<bar> < 2 ^ 1024 - 2 ^ 970)"

subsection \<open>Settings\<close>

record settings =
  keepLastN :: int
  minimalUi :: bool
  collapseOwnMessages :: bool
  collapseCodeBlocks :: bool

definition DEFAULT_SETTINGS :: settings where
  "DEFAULT_SETTINGS =
     \<lparr>keepLastN = 6, minimalUi = True, collapseOwnMessages = True, collapseCodeBlocks = True\<rparr>"

definition minKeepLastN :: int where "minKeepLastN = 1"
definition maxKeepLastN :: int where "maxKeepLastN = 500"

text \<open>
  \<^verbatim>\<open>clampKeepLastN\<close> of the content script; the popup's function of the same name has
  the same body with the limits written as literals. The clamped value of a finite
  parse is exact: rounding to a double is monotone and leaves the integers up to
  \<open>2^53\<close> unchanged.
\<close>

definition clampKeepLastN :: "jsval \<Rightarrow> int" where
  "clampKeepLastN v =
     (let parsed = parseInt10 (toString v)
      in if \<not> isFinite parsed then keepLastN DEFAULT_SETTINGS
         else (case parsed of Num i \<Rightarrow> min maxKeepLastN (max minKeepLastN i)
                            | NaN \<Rightarrow> keepLastN DEFAULT_SETTINGS))"


section \<open>The document\<close>

text \<open>
  The page is a heap of element trees. Each element has an identity (\<open>nid\<close>); the
  shape of the trees is kept apart from the data of the elements, so that a write to
  an element's classes or attributes leaves the shape alone and a move of a node leaves
  the data alone. The trees of \<open>document\<close> are the element children of the document
  node, in document order; \<open>detached\<close> holds the trees that are not connected (created
  and not yet inserted, or removed). Only elements are nodes of the model: the text of
  an element is the field \<open>textContent\<close>, and the next sibling of an element is its next
  element sibling.
\<close>

type_synonym nid = nat

datatype tree = Tree (root: nid) (kids: "tree list")

record elem =
  tagName :: string
  isHTMLElement :: bool
  elemId :: string
  classList :: "string set"
  attributes :: "string \<rightharpoonup> string"
  textContent :: string

text \<open>
  A thrown error, by its name and its message. The message texts of the platform's
  errors are the browser's own and are left empty here.
\<close>

datatype error = Error (errorName: string) (errorMessage: string)

definition TypeError :: error where
  "TypeError = Error ''TypeError'' []"

definition HierarchyRequestError :: error where
  "HierarchyRequestError = Error ''HierarchyRequestError'' []"

definition NotFoundError :: error where
  "NotFoundError = Error ''NotFoundError'' []"

definition ExtensionContextInvalidated :: error where
  "ExtensionContextInvalidated = Error ''Error'' ''Extension context invalidated.''"

text \<open>\<^verbatim>\<open>String(error)\<close>, that is \<^verbatim>\<open>Error.prototype.toString\<close>.\<close>

definition errorToString :: "error \<Rightarrow> string" where
  "errorToString e =
     (if errorName e = [] then errorMessage e
      else if errorMessage e = [] then errorName e
      else errorName e @ '': '' @ errorMessage e)"

type_synonym jsobject = "(string \<times> jsval) list"

record page =
  document :: "tree list"
  detached :: "tree list"
  elems :: "nid \<Rightarrow> elem"
  nextId :: nid
  messages :: "string \<rightharpoonup> bool"
  codeBlocks :: "string \<rightharpoonup> bool"
  messageListeners :: "nid \<rightharpoonup> string \<times> nid"
  codeListeners :: "nid \<rightharpoonup> string \<times> nid"
  storage :: "string \<rightharpoonup> jsval"
  contextValid :: bool
  listenersAttached :: bool
  captureClickListeners :: nat
  sent :: "jsobject list"

subsection \<open>Trees\<close>

text \<open>The elements of a forest in document (pre-)order.\<close>

fun pre :: "tree list \<Rightarrow> nid list" where
  "pre [] = []"
| "pre (Tree n ts # us) = n # pre ts @ pre us"

fun subtree :: "nid \<Rightarrow> tree list \<Rightarrow> tree option" where
  "subtree n [] = None"
| "subtree n (Tree m ts # us) =
     (if m = n then Some (Tree m ts)
      else (case subtree n ts of Some t \<Rightarrow> Some t | None \<Rightarrow> subtree n us))"

text \<open>The proper descendants of a node, in document order.\<close>

definition descendants :: "nid \<Rightarrow> tree list \<Rightarrow> nid list" where
  "descendants n f = (case subtree n f of Some t \<Rightarrow> pre (kids t) | None \<Rightarrow> [])"

fun parentOf :: "nid \<Rightarrow> tree list \<Rightarrow> nid option" where
  "parentOf n [] = None"
| "parentOf n (Tree m ts # us) =
     (if n \<in> set (map root ts) then Some m
      else (case parentOf n ts of Some p \<Rightarrow> Some p | None \<Rightarrow> parentOf n us))"

fun nextAmong :: "nid \<Rightarrow> tree list \<Rightarrow> nid option" where
  "nextAmong n [] = None"
| "nextAmong n [t] = None"
| "nextAmong n (t # u # us) = (if root t = n then Some (root u) else nextAmong n (u # us))"

fun nextSiblingOf :: "nid \<Rightarrow> tree list \<Rightarrow> nid option" where
  "nextSiblingOf n [] = None"
| "nextSiblingOf n (Tree m ts # us) =
     (if n \<in> set (map root ts) then nextAmong n ts
      else (case nextSiblingOf n ts of Some x \<Rightarrow> Some x | None \<Rightarrow> nextSiblingOf n us))"

text \<open>The inclusive ancestors of a node, the node itself first; empty when it is absent.\<close>

fun ancestorsOf :: "nid \<Rightarrow> tree list \<Rightarrow> nid list" where
  "ancestorsOf n [] = []"
| "ancestorsOf n (Tree m ts # us) =
     (if m = n then [n]
      else (case ancestorsOf n ts of [] \<Rightarrow> ancestorsOf n us | p # ps \<Rightarrow> (p # ps) @ [m]))"

text \<open>Cutting a node out of a forest, with its subtree.\<close>

fun cutOut :: "nid \<Rightarrow> tree list \<Rightarrow> tree list" where
  "cutOut n [] = []"
| "cutOut n (Tree m ts # us) = (if m = n then cutOut n us else Tree m (cutOut n ts) # cutOut n us)"

text \<open>Placing a tree among siblings, before the sibling \<open>r\<close> or at the end.\<close>

fun placeBefore :: "nid option \<Rightarrow> tree \<Rightarrow> tree list \<Rightarrow> tree list" where
  "placeBefore None t ts = ts @ [t]"
| "placeBefore (Some r) t [] = [t]"
| "placeBefore (Some r) t (u # us) =
     (if root u = r then t # u # us else u # placeBefore (Some r) t us)"

fun insertInto :: "nid \<Rightarrow> nid option \<Rightarrow> tree \<Rightarrow> tree list \<Rightarrow> tree list" where
  "insertInto h r t [] = []"
| "insertInto h r t (Tree m ts # us) =
     (if m = h then Tree m (placeBefore r t ts) # us
      else Tree m (insertInto h r t ts) # insertInto h r t us)"

text \<open>Emptying a node of its children.\<close>

fun clearKids :: "nid \<Rightarrow> tree list \<Rightarrow> tree list" where
  "clearKids n [] = []"
| "clearKids n (Tree m ts # us) =
     (if m = n then Tree m [] # us else Tree m (clearKids n ts) # clearKids n us)"

subsection \<open>DOM operations\<close>

definition heap :: "page \<Rightarrow> tree list" where
  "heap s = document s @ detached s"

definition parentElement :: "nid \<Rightarrow> page \<Rightarrow> nid option" where
  "parentElement n s = parentOf n (heap s)"

definition nextSibling :: "nid \<Rightarrow> page \<Rightarrow> nid option" where
  "nextSibling n s = nextSiblingOf n (heap s)"

text \<open>\<^verbatim>\<open>a.contains(b)\<close>: \<open>b\<close> is an inclusive descendant of \<open>a\<close>.\<close>

definition contains :: "nid \<Rightarrow> nid \<Rightarrow> page \<Rightarrow> bool" where
  "contains a b s = (a \<in> set (ancestorsOf b (heap s)))"

text \<open>\<^verbatim>\<open>document.querySelectorAll\<close>, \<^verbatim>\<open>document.querySelector\<close> and \<^verbatim>\<open>document.getElementById\<close>.\<close>

definition querySelectorAll :: "(elem \<Rightarrow> bool) \<Rightarrow> page \<Rightarrow> nid list" where
  "querySelectorAll sel s = filter (\<lambda>n. sel (elems s n)) (pre (document s))"

definition querySelector :: "(elem \<Rightarrow> bool) \<Rightarrow> page \<Rightarrow> nid option" where
  "querySelector sel s = find (\<lambda>n. sel (elems s n)) (pre (document s))"

definition getElementById :: "string \<Rightarrow> page \<Rightarrow> nid option" where
  "getElementById i s = find (\<lambda>n. elemId (elems s n) = i) (pre (document s))"

text \<open>\<^verbatim>\<open>element.querySelectorAll\<close>, \<^verbatim>\<open>element.querySelector\<close> and \<^verbatim>\<open>element.closest\<close>.\<close>

definition querySelectorAllIn :: "nid \<Rightarrow> (elem \<Rightarrow> bool) \<Rightarrow> page \<Rightarrow> nid list" where
  "querySelectorAllIn e sel s = filter (\<lambda>n. sel (elems s n)) (descendants e (heap s))"

definition querySelectorIn :: "nid \<Rightarrow> (elem \<Rightarrow> bool) \<Rightarrow> page \<Rightarrow> nid option" where
  "querySelectorIn e sel s = find (\<lambda>n. sel (elems s n)) (descendants e (heap s))"


definition documentElement :: "page \<Rightarrow> nid option" where
  "documentElement s = (case document s of [] \<Rightarrow> None | t # ts \<Rightarrow> Some (root t))"

text \<open>\<^verbatim>\<open>document.body\<close>: the first body or frameset child of the html element.\<close>

definition body :: "page \<Rightarrow> nid option" where
  "body s =
     (case document s of
        [] \<Rightarrow> None
      | t # ts \<Rightarrow>
          if tagName (elems s (root t)) = ''html''
          then find (\<lambda>n. tagName (elems s n) = ''body'' \<or> tagName (elems s n) = ''frameset'')
                 (map root (kids t))
          else None)"

text \<open>Writes to the data of one element.\<close>

definition updateElem :: "nid \<Rightarrow> (elem \<Rightarrow> elem) \<Rightarrow> page \<Rightarrow> page" where
  "updateElem n f s = s\<lparr>elems := (elems s)(n := f (elems s n))\<rparr>"

text \<open>\<^verbatim>\<open>classList.toggle(name, force)\<close>, \<^verbatim>\<open>classList.remove\<close> and \<^verbatim>\<open>classList.contains\<close>.\<close>

definition classToggle :: "nid \<Rightarrow> string \<Rightarrow> bool \<Rightarrow> page \<Rightarrow> page" where
  "classToggle n c force s =
     updateElem n (\<lambda>e. e\<lparr>classList := (if force then insert c (classList e) else classList e - {c})\<rparr>) s"

definition classRemove :: "nid \<Rightarrow> string \<Rightarrow> page \<Rightarrow> page" where
  "classRemove n c s = updateElem n (\<lambda>e. e\<lparr>classList := classList e - {c}\<rparr>) s"

definition classContains :: "nid \<Rightarrow> string \<Rightarrow> page \<Rightarrow> bool" where
  "classContains n c s = (c \<in> classList (elems s n))"

definition getAttribute :: "nid \<Rightarrow> string \<Rightarrow> page \<Rightarrow> string option" where
  "getAttribute n a s = attributes (elems s n) a"

definition setAttribute :: "nid \<Rightarrow> string \<Rightarrow> string \<Rightarrow> page \<Rightarrow> page" where
  "setAttribute n a v s = updateElem n (\<lambda>e. e\<lparr>attributes := (attributes e)(a \<mapsto> v)\<rparr>) s"

definition removeAttribute :: "nid \<Rightarrow> string \<Rightarrow> page \<Rightarrow> page" where
  "removeAttribute n a s = updateElem n (\<lambda>e. e\<lparr>attributes := (attributes e)(a := None)\<rparr>) s"

text \<open>
  The setter of \<^verbatim>\<open>textContent\<close> replaces the children of the element by the text: the
  element children become detached trees.
\<close>

definition setTextContent :: "nid \<Rightarrow> string \<Rightarrow> page \<Rightarrow> page" where
  "setTextContent n v s =
     (let old = (case subtree n (heap s) of Some t \<Rightarrow> kids t | None \<Rightarrow> [])
      in updateElem n (\<lambda>e. e\<lparr>textContent := v\<rparr>)
           (s\<lparr>document := clearKids n (document s),
              detached := clearKids n (detached s) @ old\<rparr>))"

definition blankElement :: "string \<Rightarrow> elem" where
  "blankElement t =
     \<lparr>tagName = t, isHTMLElement = True, elemId = [], classList = {},
      attributes = Map.empty, textContent = []\<rparr>"

text \<open>\<^verbatim>\<open>document.createElement\<close>: a fresh HTML element, not yet connected.\<close>

definition createElement :: "string \<Rightarrow> page \<Rightarrow> nid \<times> page" where
  "createElement t s =
     (nextId s,
      s\<lparr>detached := detached s @ [Tree (nextId s) []],
        elems := (elems s)(nextId s := blankElement t),
        nextId := Suc (nextId s)\<rparr>)"

text \<open>\<^verbatim>\<open>element.remove()\<close>.\<close>

definition removeNode :: "nid \<Rightarrow> page \<Rightarrow> page" where
  "removeNode n s =
     (case subtree n (heap s) of
        None \<Rightarrow> s
      | Some t \<Rightarrow> s\<lparr>document := cutOut n (document s), detached := cutOut n (detached s) @ [t]\<rparr>)"

text \<open>
  Insertion of \<open>node\<close> under \<open>parent\<close> before \<open>child\<close> (at the end when there is no
  child), as the DOM standard's pre-insert: it throws when \<open>node\<close> is an inclusive
  ancestor of \<open>parent\<close> and when \<open>child\<close> is not a child of \<open>parent\<close>; a node inserted
  before itself goes before its next sibling.
\<close>

definition preInsert :: "nid \<Rightarrow> nid \<Rightarrow> nid option \<Rightarrow> page \<Rightarrow> error option \<times> page" where
  "preInsert parent node child s =
     (if node \<in> set (ancestorsOf parent (heap s)) then (Some HierarchyRequestError, s)
      else if (case child of Some c \<Rightarrow> parentOf c (heap s) \<noteq> Some parent | None \<Rightarrow> False)
      then (Some NotFoundError, s)
      else (case subtree node (heap s) of
              None \<Rightarrow> (None, s)
            | Some t \<Rightarrow>
                (let ref = (if child = Some node then nextSiblingOf node (heap s) else child)
                 in (None, s\<lparr>document := insertInto parent ref t (cutOut node (document s)),
                              detached := insertInto parent ref t (cutOut node (detached s))\<rparr>))))"

definition insertBefore :: "nid \<Rightarrow> nid \<Rightarrow> nid \<Rightarrow> page \<Rightarrow> error option \<times> page" where
  "insertBefore parent node child s = preInsert parent node (Some child) s"

definition appendChild :: "nid \<Rightarrow> nid \<Rightarrow> page \<Rightarrow> error option \<times> page" where
  "appendChild parent node s = preInsert parent node None s"

definition firstChild :: "nid \<Rightarrow> page \<Rightarrow> nid option" where
  "firstChild n s =
     (case subtree n (heap s) of
        Some t \<Rightarrow> (case kids t of [] \<Rightarrow> None | k # ks \<Rightarrow> Some (root k))
      | None \<Rightarrow> None)"

definition prepend :: "nid \<Rightarrow> nid \<Rightarrow> page \<Rightarrow> error option \<times> page" where
  "prepend parent node s = preInsert parent node (firstChild parent s) s"


section \<open>The content script\<close>

subsection \<open>Constants\<close>

definition conversationTurnsPrimary :: "elem \<Rightarrow> bool" where
  "conversationTurnsPrimary e =
     (tagName e = ''article'' \<and>
      (case attributes e ''data-testid'' of
         Some v \<Rightarrow> prefix ''conversation-turn-'' v
       | None \<Rightarrow> False))"

definition conversationTurnsFallback :: "elem \<Rightarrow> bool" where
  "conversationTurnsFallback e =
     (tagName e = ''article'' \<and> attributes e ''data-turn-id'' \<noteq> None \<and>
      attributes e ''data-turn'' \<noteq> None)"

definition userRoleContainer :: "elem \<Rightarrow> bool" where
  "userRoleContainer e = (attributes e ''data-message-author-role'' = Some ''user'')"

definition codeBlocksSel :: "elem \<Rightarrow> bool" where
  "codeBlocksSel e = (tagName e = ''pre'')"

definition threadRoot :: "elem \<Rightarrow> bool" where
  "threadRoot e = (elemId e = ''thread'')"

definition mainRoot :: "elem \<Rightarrow> bool" where
  "mainRoot e = (tagName e = ''main'')"


text \<open>The selectors \<^verbatim>\<open>button.<class>\<close> and \<^verbatim>\<open>.<class>\<close>.\<close>

definition buttonWithClass :: "string \<Rightarrow> elem \<Rightarrow> bool" where
  "buttonWithClass c e = (tagName e = ''button'' \<and> c \<in> classList e)"

definition withClass :: "string \<Rightarrow> elem \<Rightarrow> bool" where
  "withClass c e = (c \<in> classList e)"

text \<open>\<^verbatim>\<open>instanceof HTMLButtonElement\<close>.\<close>

definition isHTMLButtonElement :: "elem \<Rightarrow> bool" where
  "isHTMLButtonElement e = (isHTMLElement e \<and> tagName e = ''button'')"

definition IDS_styleTag :: string where "IDS_styleTag = ''cgpt-trimmer-style''"
definition IDS_banner :: string where "IDS_banner = ''cgpt-trimmer-banner''"

definition CLASSES_hiddenTurn :: string where
  "CLASSES_hiddenTurn = ''cgpt-trimmer-hidden''"
definition CLASSES_minimalUi :: string where
  "CLASSES_minimalUi = ''cgpt-trimmer-minimal-ui''"
definition CLASSES_messageToggle :: string where
  "CLASSES_messageToggle = ''cgpt-trimmer-message-toggle''"
definition CLASSES_codeToggle :: string where
  "CLASSES_codeToggle = ''cgpt-trimmer-code-toggle''"
definition CLASSES_collapsedUserMessage :: string where
  "CLASSES_collapsedUserMessage = ''cgpt-trimmer-collapsed-user-message''"
definition CLASSES_collapsedCodeBlock :: string where
  "CLASSES_collapsedCodeBlock = ''cgpt-trimmer-collapsed-code-block''"

definition ATTRS_messageKey :: string where
  "ATTRS_messageKey = ''data-cgpt-trimmer-message-key''"
definition ATTRS_codeKey :: string where
  "ATTRS_codeKey = ''data-cgpt-trimmer-code-key''"

definition hiddenAttr :: string where
  "hiddenAttr = ''data-cgpt-trimmer-hidden''"

definition LABELS_showMyMessage :: string where "LABELS_showMyMessage = ''Show my message''"
definition LABELS_hideMyMessage :: string where "LABELS_hideMyMessage = ''Hide my message''"
definition LABELS_showCode :: string where "LABELS_showCode = ''Show code''"
definition LABELS_hideCode :: string where "LABELS_hideCode = ''Hide code''"

subsection \<open>Settings in \<^verbatim>\<open>chrome.storage.sync\<close>\<close>

text \<open>
  A call into \<^verbatim>\<open>chrome.storage\<close> throws when the extension context is no longer valid;
  inside the executor of a promise this rejects the promise. \<open>Inl\<close> is a rejection.
\<close>

definition stored :: "string \<Rightarrow> jsval \<Rightarrow> page \<Rightarrow> jsval" where
  "stored k d s = (case storage s k of Some v \<Rightarrow> v | None \<Rightarrow> d)"

definition loadSettings :: "page \<Rightarrow> error + settings" where
  "loadSettings s =
     (if \<not> contextValid s then Inl ExtensionContextInvalidated
      else Inr \<lparr>keepLastN = clampKeepLastN (stored ''keepLastN'' (JInt (keepLastN DEFAULT_SETTINGS)) s),
                minimalUi = toBoolean (stored ''minimalUi'' (JBool (minimalUi DEFAULT_SETTINGS)) s),
                collapseOwnMessages =
                  toBoolean (stored ''collapseOwnMessages'' (JBool (collapseOwnMessages DEFAULT_SETTINGS)) s),
                collapseCodeBlocks =
                  toBoolean (stored ''collapseCodeBlocks'' (JBool (collapseCodeBlocks DEFAULT_SETTINGS)) s)\<rparr>)"

definition saveSettings :: "settings \<Rightarrow> page \<Rightarrow> (error + unit) \<times> page" where
  "saveSettings v s =
     (if \<not> contextValid s then (Inl ExtensionContextInvalidated, s)
      else (Inr (),
            s\<lparr>storage := (storage s)
                 (''keepLastN'' \<mapsto> JInt (keepLastN v),
                  ''minimalUi'' \<mapsto> JBool (minimalUi v),
                  ''collapseOwnMessages'' \<mapsto> JBool (collapseOwnMessages v),
                  ''collapseCodeBlocks'' \<mapsto> JBool (collapseCodeBlocks v))\<rparr>))"

subsection \<open>Style tag, turns and banner\<close>

definition ensureStyleTag :: "page \<Rightarrow> error option \<times> page" where
  "ensureStyleTag s =
     (if getElementById IDS_styleTag s \<noteq> None then (None, s)
      else (let (style, s1) = createElement ''style'' s;
                s2 = updateElem style (\<lambda>e. e\<lparr>elemId := IDS_styleTag\<rparr>) s1
            in (case documentElement s2 of
                  None \<Rightarrow> (Some TypeError, s2)
                | Some r \<Rightarrow> appendChild r style s2)))"

definition getConversationTurns :: "page \<Rightarrow> nid list" where
  "getConversationTurns s =
     (let turns = querySelectorAll conversationTurnsPrimary s;
          turns = (if length turns = 0 then querySelectorAll conversationTurnsFallback s
                   else turns);
          turns = (case querySelector threadRoot s of
                     Some r \<Rightarrow> filter (\<lambda>element. contains r element s) turns
                   | None \<Rightarrow> turns)
      in filter (\<lambda>element. isHTMLElement (elems s element)) turns)"

text \<open>\<^verbatim>\<open>x instanceof HTMLElement ? x : null\<close>, for a possibly null \<open>x\<close>.\<close>

definition asHTMLElement :: "nid option \<Rightarrow> page \<Rightarrow> nid option" where
  "asHTMLElement x s =
     (case x of
        Some n \<Rightarrow> if isHTMLElement (elems s n) then Some n else None
      | None \<Rightarrow> None)"

definition getBannerHost :: "nid list \<Rightarrow> page \<Rightarrow> nid option" where
  "getBannerHost turns s =
     (if length turns > 0 \<and> parentElement (hd turns) s \<noteq> None then parentElement (hd turns) s
      else (case asHTMLElement (querySelector threadRoot s) s of
              Some r \<Rightarrow> Some r
            | None \<Rightarrow>
                (case asHTMLElement (querySelector mainRoot s) s of
                   Some m \<Rightarrow> Some m
                 | None \<Rightarrow> asHTMLElement (body s) s)))"

definition removeBanner :: "page \<Rightarrow> page" where
  "removeBanner s =
     (case getElementById IDS_banner s of
        Some existing \<Rightarrow> removeNode existing s
      | None \<Rightarrow> s)"

definition bannerText :: "int \<Rightarrow> int \<Rightarrow> int \<Rightarrow> string" where
  "bannerText hiddenCount totalCount keep =
     numberToString hiddenCount @ '' older messages hidden. Showing the last '' @
     numberToString keep @ '' turns ('' @ numberToString totalCount @ '' total).''"

definition updateBanner :: "int \<Rightarrow> int \<Rightarrow> int \<Rightarrow> nid list \<Rightarrow> page \<Rightarrow> error option \<times> page" where
  "updateBanner hiddenCount totalCount keep turns s =
     (if hiddenCount \<le> 0 then (None, removeBanner s)
      else (case getBannerHost turns s of
              None \<Rightarrow> (None, s)
            | Some host \<Rightarrow>
                (case getElementById IDS_banner s of
                   Some banner \<Rightarrow>
                     (None, setTextContent banner (bannerText hiddenCount totalCount keep) s)
                 | None \<Rightarrow>
                     (let (banner, s1) = createElement ''div'' s;
                          s2 = updateElem banner (\<lambda>e. e\<lparr>elemId := IDS_banner\<rparr>) s1;
                          s3 = setAttribute banner ''role'' ''status'' s2;
                          s4 = setAttribute banner ''aria-live'' ''polite'' s3
                      in (case (if length turns > 0 then insertBefore host banner (hd turns) s4
                                else prepend host banner s4) of
                            (Some e, s5) \<Rightarrow> (Some e, s5)
                          | (None, s5) \<Rightarrow>
                              (None,
                               setTextContent banner
                                 (bannerText hiddenCount totalCount keep) s5))))))"

definition setTurnHidden :: "nid \<Rightarrow> bool \<Rightarrow> page \<Rightarrow> page" where
  "setTurnHidden turn hidden s =
     (let s1 = classToggle turn CLASSES_hiddenTurn hidden s
      in if hidden then setAttribute turn hiddenAttr ''1'' s1
         else removeAttribute turn hiddenAttr s1)"

definition showAllTurns :: "page \<Rightarrow> page" where
  "showAllTurns s =
     removeBanner (fold (\<lambda>turn. setTurnHidden turn False) (getConversationTurns s) s)"

definition applyMinimalUi :: "bool \<Rightarrow> page \<Rightarrow> error option \<times> page" where
  "applyMinimalUi enabled s =
     (case documentElement s of
        None \<Rightarrow> (Some TypeError, s)
      | Some r \<Rightarrow> (None, classToggle r CLASSES_minimalUi enabled s))"


subsection \<open>Collapse toggles\<close>

text \<open>A JavaScript string is truthy when it is present and not empty.\<close>

definition truthy :: "string option \<Rightarrow> bool" where
  "truthy x = (case x of Some v \<Rightarrow> v \<noteq> [] | None \<Rightarrow> False)"

definition getTurnKey :: "nid \<Rightarrow> nat \<Rightarrow> page \<Rightarrow> string" where
  "getTurnKey turn index s =
     (let testId = getAttribute turn ''data-testid'' s;
          turnId = getAttribute turn ''data-turn-id'' s;
          genericTurn = getAttribute turn ''data-turn'' s
      in if truthy testId then the testId
         else if truthy turnId then ''turn-id:'' @ the turnId
         else if truthy genericTurn then ''turn:'' @ the genericTurn
         else ''turn-index:'' @ numberToString (int index))"

definition findUserMessageNode :: "nid \<Rightarrow> page \<Rightarrow> nid option" where
  "findUserMessageNode turn s = asHTMLElement (querySelectorIn turn userRoleContainer s) s"

definition findChildButtonByKey :: "nid \<Rightarrow> string \<Rightarrow> string \<Rightarrow> string \<Rightarrow> page \<Rightarrow> nid option" where
  "findChildButtonByKey rootNode className attributeName key s =
     find (\<lambda>button. isHTMLButtonElement (elems s button) \<and>
                     getAttribute button attributeName s = Some key)
       (querySelectorAllIn rootNode (buttonWithClass className) s)"

definition boolToString :: "bool \<Rightarrow> string" where
  "boolToString b = (if b then ''true'' else ''false'')"

definition setMessageCollapsed :: "nid \<Rightarrow> nid \<Rightarrow> bool \<Rightarrow> page \<Rightarrow> page" where
  "setMessageCollapsed messageNode button collapsed s =
     (let s1 = classToggle messageNode CLASSES_collapsedUserMessage collapsed s;
          s2 = setAttribute button ''aria-expanded'' (boolToString (\<not> collapsed)) s1
      in setTextContent button
           (if collapsed then LABELS_showMyMessage else LABELS_hideMyMessage) s2)"

text \<open>
  A newly created toggle gets a click listener that closes over the key and the
  message node; the page records it with the button.
\<close>

definition ensureMessageToggle :: "nid \<Rightarrow> nid \<Rightarrow> string \<Rightarrow> page \<Rightarrow> error option \<times> page" where
  "ensureMessageToggle turn messageNode messageKey s =
     (let host = (case parentElement messageNode s of Some p \<Rightarrow> p | None \<Rightarrow> turn);
          (button, s1) =
            (case findChildButtonByKey turn CLASSES_messageToggle ATTRS_messageKey messageKey s of
               Some b \<Rightarrow> (b, s)
             | None \<Rightarrow>
                 (let (b, t1) = createElement ''button'' s;
                      t2 = setAttribute b ''type'' ''button'' t1;
                      t3 = updateElem b (\<lambda>e. e\<lparr>classList := {CLASSES_messageToggle}\<rparr>) t2;
                      t4 = setAttribute b ATTRS_messageKey messageKey t3
                  in (b, t4\<lparr>messageListeners := (messageListeners t4)(b \<mapsto> (messageKey, messageNode))\<rparr>)))
      in (case (if parentElement button s1 \<noteq> Some host \<or> nextSibling button s1 \<noteq> Some messageNode
                then insertBefore host button messageNode s1 else (None, s1)) of
            (Some e, s2) \<Rightarrow> (Some e, s2)
          | (None, s2) \<Rightarrow>
              (let s3 = (if messages s2 messageKey = None
                         then s2\<lparr>messages := (messages s2)(messageKey \<mapsto> True)\<rparr> else s2)
               in (None, setMessageCollapsed messageNode button (messages s3 messageKey = Some True) s3))))"

definition cleanupMessageCollapsers :: "page \<Rightarrow> page" where
  "cleanupMessageCollapsers s =
     (let s1 = fold removeNode (querySelectorAll (buttonWithClass CLASSES_messageToggle) s) s
      in fold (\<lambda>node. classRemove node CLASSES_collapsedUserMessage)
           (querySelectorAll (withClass CLASSES_collapsedUserMessage) s1) s1)"

fun messageTurnLoop :: "nid list \<Rightarrow> nat \<Rightarrow> page \<Rightarrow> error option \<times> page" where
  "messageTurnLoop [] index s = (None, s)"
| "messageTurnLoop (turn # rest) index s =
     (case findUserMessageNode turn s of
        None \<Rightarrow> messageTurnLoop rest (Suc index) s
      | Some messageNode \<Rightarrow>
          (case ensureMessageToggle turn messageNode
                  (getTurnKey turn index s @ ''::user-message'') s of
             (Some e, s1) \<Rightarrow> (Some e, s1)
           | (None, s1) \<Rightarrow> messageTurnLoop rest (Suc index) s1))"

definition applyMessageCollapsers :: "nid list \<Rightarrow> bool \<Rightarrow> page \<Rightarrow> error option \<times> page" where
  "applyMessageCollapsers turns enabled s =
     (if \<not> enabled then (None, cleanupMessageCollapsers s) else messageTurnLoop turns 0 s)"

definition setCodeCollapsed :: "nid \<Rightarrow> nid \<Rightarrow> bool \<Rightarrow> page \<Rightarrow> page" where
  "setCodeCollapsed preElement button collapsed s =
     (let s1 = classToggle preElement CLASSES_collapsedCodeBlock collapsed s;
          s2 = setAttribute button ''aria-expanded'' (boolToString (\<not> collapsed)) s1
      in setTextContent button (if collapsed then LABELS_showCode else LABELS_hideCode) s2)"

definition ensureCodeToggle :: "nid \<Rightarrow> string \<Rightarrow> page \<Rightarrow> error option \<times> page" where
  "ensureCodeToggle preElement codeKey s =
     (case parentElement preElement s of
        None \<Rightarrow> (None, s)
      | Some host \<Rightarrow>
          (let (button, s1) =
                 (case findChildButtonByKey host CLASSES_codeToggle ATTRS_codeKey codeKey s of
                    Some b \<Rightarrow> (b, s)
                  | None \<Rightarrow>
                      (let (b, t1) = createElement ''button'' s;
                           t2 = setAttribute b ''type'' ''button'' t1;
                           t3 = updateElem b (\<lambda>e. e\<lparr>classList := {CLASSES_codeToggle}\<rparr>) t2;
                           t4 = setAttribute b ATTRS_codeKey codeKey t3
                       in (b, t4\<lparr>codeListeners := (codeListeners t4)(b \<mapsto> (codeKey, preElement))\<rparr>)))
           in (case (if parentElement button s1 \<noteq> Some host \<or> nextSibling button s1 \<noteq> Some preElement
                     then insertBefore host button preElement s1 else (None, s1)) of
                 (Some e, s2) \<Rightarrow> (Some e, s2)
               | (None, s2) \<Rightarrow>
                   (let s3 = (if codeBlocks s2 codeKey = None
                              then s2\<lparr>codeBlocks := (codeBlocks s2)(codeKey \<mapsto> True)\<rparr> else s2)
                    in (None, setCodeCollapsed preElement button (codeBlocks s3 codeKey = Some True) s3)))))"

definition cleanupCodeCollapsers :: "page \<Rightarrow> page" where
  "cleanupCodeCollapsers s =
     (let s1 = fold removeNode (querySelectorAll (buttonWithClass CLASSES_codeToggle) s) s
      in fold (\<lambda>node. classRemove node CLASSES_collapsedCodeBlock)
           (querySelectorAll (withClass CLASSES_collapsedCodeBlock) s1) s1)"

fun codeBlockLoop :: "string \<Rightarrow> nid list \<Rightarrow> nat \<Rightarrow> page \<Rightarrow> error option \<times> page" where
  "codeBlockLoop turnKey [] codeIndex s = (None, s)"
| "codeBlockLoop turnKey (preBlock # rest) codeIndex s =
     (if \<not> isHTMLElement (elems s preBlock) then codeBlockLoop turnKey rest codeIndex s
      else (case ensureCodeToggle preBlock
                    (turnKey @ ''::code-block:'' @ numberToString (int codeIndex)) s of
              (Some e, s1) \<Rightarrow> (Some e, s1)
            | (None, s1) \<Rightarrow> codeBlockLoop turnKey rest (Suc codeIndex) s1))"

fun codeTurnLoop :: "nid list \<Rightarrow> nat \<Rightarrow> page \<Rightarrow> error option \<times> page" where
  "codeTurnLoop [] turnIndex s = (None, s)"
| "codeTurnLoop (turn # rest) turnIndex s =
     (case codeBlockLoop (getTurnKey turn turnIndex s)
             (querySelectorAllIn turn codeBlocksSel s) 0 s of
        (Some e, s1) \<Rightarrow> (Some e, s1)
      | (None, s1) \<Rightarrow> codeTurnLoop rest (Suc turnIndex) s1)"

definition applyCodeCollapsers :: "nid list \<Rightarrow> bool \<Rightarrow> page \<Rightarrow> error option \<times> page" where
  "applyCodeCollapsers turns enabled s =
     (if \<not> enabled then (None, cleanupCodeCollapsers s) else codeTurnLoop turns 0 s)"

definition applyCollapsibleFeatures :: "nid list \<Rightarrow> settings \<Rightarrow> page \<Rightarrow> error option \<times> page" where
  "applyCollapsibleFeatures turns settings s =
     (case applyMessageCollapsers turns (collapseOwnMessages settings) s of
        (Some e, s1) \<Rightarrow> (Some e, s1)
      | (None, s1) \<Rightarrow> applyCodeCollapsers turns (collapseCodeBlocks settings) s1)"

subsection \<open>The reconciliation pass\<close>

definition trimResult :: "int \<Rightarrow> int \<Rightarrow> int \<Rightarrow> jsobject" where
  "trimResult hiddenCount totalCount keep =
     [(''ok'', JBool True), (''hiddenCount'', JInt hiddenCount),
      (''totalCount'', JInt totalCount), (''keepLastN'', JInt keep)]"

fun hideLoop :: "nid list \<Rightarrow> nat \<Rightarrow> int \<Rightarrow> page \<Rightarrow> page" where
  "hideLoop [] index hiddenCount s = s"
| "hideLoop (turn # rest) index hiddenCount s =
     hideLoop rest (Suc index) hiddenCount (setTurnHidden turn (int index < hiddenCount) s)"

text \<open>
  \<^verbatim>\<open>applyTrimming\<close>. The only suspension point of the asynchronous function is the read
  of the settings; the pass is taken as one step. \<open>Inl\<close> is a rejected promise.
\<close>

definition applyTrimming :: "page \<Rightarrow> (error + jsobject) \<times> page" where
  "applyTrimming s =
     (case ensureStyleTag s of
        (Some e, s1) \<Rightarrow> (Inl e, s1)
      | (None, s1) \<Rightarrow>
          (case loadSettings s1 of
             Inl e \<Rightarrow> (Inl e, s1)
           | Inr settings \<Rightarrow>
               (let turns = getConversationTurns s1
                in (case applyMinimalUi (minimalUi settings) s1 of
                      (Some e, s2) \<Rightarrow> (Inl e, s2)
                    | (None, s2) \<Rightarrow>
                        if length turns = 0
                        then (Inr (trimResult 0 0 (keepLastN settings)), removeBanner s2)
                        else (let hiddenCount = max 0 (int (length turns) - keepLastN settings);
                                  s3 = hideLoop turns 0 hiddenCount s2
                              in (case applyCollapsibleFeatures turns settings s3 of
                                    (Some e, s4) \<Rightarrow> (Inl e, s4)
                                  | (None, s4) \<Rightarrow>
                                      (case updateBanner hiddenCount (int (length turns))
                                              (keepLastN settings) turns s4 of
                                         (Some e, s5) \<Rightarrow> (Inl e, s5)
                                       | (None, s5) \<Rightarrow>
                                           (Inr (trimResult hiddenCount (int (length turns))
                                                   (keepLastN settings)), s5))))))))"

subsection \<open>Listeners\<close>





subsection \<open>Messages from the popup\<close>

datatype message = NotAnObject | Object "string \<rightharpoonup> jsval"

definition field :: "(string \<rightharpoonup> jsval) \<Rightarrow> string \<Rightarrow> jsval" where
  "field m k = (case m k of Some v \<Rightarrow> v | None \<Rightarrow> JUndefined)"

definition sendResponse :: "jsobject \<Rightarrow> page \<Rightarrow> (error + unit) \<times> page" where
  "sendResponse r s = (Inr (), s\<lparr>sent := sent s @ [r]\<rparr>)"

text \<open>\<^verbatim>\<open>promise.then(f)\<close> and \<^verbatim>\<open>promise.catch(f)\<close> on settled promises.\<close>

definition thenP :: "(error + 'a) \<times> page \<Rightarrow> ('a \<Rightarrow> page \<Rightarrow> (error + 'b) \<times> page) \<Rightarrow> (error + 'b) \<times> page" where
  "thenP p f = (case p of (Inl e, s) \<Rightarrow> (Inl e, s) | (Inr v, s) \<Rightarrow> f v s)"

definition catchP :: "(error + 'a) \<times> page \<Rightarrow> (error \<Rightarrow> page \<Rightarrow> (error + 'a) \<times> page) \<Rightarrow> (error + 'a) \<times> page" where
  "catchP p f = (case p of (Inl e, s) \<Rightarrow> f e s | (Inr v, s) \<Rightarrow> (Inr v, s))"

text \<open>
  The listener of \<^verbatim>\<open>chrome.runtime.onMessage\<close>. The result is \<open>Inr True\<close> when the
  listener returns \<^verbatim>\<open>true\<close>, \<open>Inr False\<close> when it returns nothing, and \<open>Inl\<close> for an error
  that leaves the listener or its promise chain unhandled.
\<close>

definition onMessage :: "message \<Rightarrow> page \<Rightarrow> (error + bool) \<times> page" where
  "onMessage message s =
     (case message of
        NotAnObject \<Rightarrow> (Inr False, s)
      | Object m \<Rightarrow>
          if m ''type'' = Some (JStr ''TRIMMER_APPLY'') then
            (let nextSettings =
                   \<lparr>keepLastN = clampKeepLastN (field m ''keepLastN''),
                    minimalUi = toBoolean (field m ''minimalUi''),
                    collapseOwnMessages = toBoolean (field m ''collapseOwnMessages''),
                    collapseCodeBlocks = toBoolean (field m ''collapseCodeBlocks'')\<rparr>
             in (case catchP
                        (thenP (thenP (saveSettings nextSettings s) (\<lambda>u. applyTrimming))
                           (\<lambda>result. sendResponse result))
                        (\<lambda>error. sendResponse
                           [(''ok'', JBool False), (''error'', JStr (errorToString error))]) of
                   (Inl e, s1) \<Rightarrow> (Inl e, s1)
                 | (Inr u, s1) \<Rightarrow> (Inr True, s1)))
          else if m ''type'' = Some (JStr ''TRIMMER_SHOW_ALL'') then
            (case sendResponse [(''ok'', JBool True), (''hiddenCount'', JInt 0)] (showAllTurns s) of
               (Inl e, s1) \<Rightarrow> (Inl e, s1)
             | (Inr u, s1) \<Rightarrow> (Inr False, s1))
          else if m ''type'' = Some (JStr ''TRIMMER_STATUS'') then
            (let turns = getConversationTurns s;
                 hiddenCount = length (filter (\<lambda>turn. classContains turn CLASSES_hiddenTurn s) turns)
             in (case sendResponse
                        [(''ok'', JBool True), (''totalCount'', JInt (int (length turns))),
                         (''hiddenCount'', JInt (int hiddenCount))] s of
                   (Inl e, s1) \<Rightarrow> (Inl e, s1)
                 | (Inr u, s1) \<Rightarrow> (Inr False, s1)))
          else (Inr False, s))"


section \<open>Steps of the collapse and banner code\<close>

text \<open>
  The writes that the collapse-toggle functions and the banner functions perform, one
  rule for each kind: a pass through these functions is a sequence of such steps, and a
  property that every step keeps is kept by the functions.
\<close>


lemmas names_defs =
  IDS_styleTag_def IDS_banner_def CLASSES_hiddenTurn_def CLASSES_minimalUi_def
  CLASSES_messageToggle_def CLASSES_codeToggle_def CLASSES_collapsedUserMessage_def
  CLASSES_collapsedCodeBlock_def ATTRS_messageKey_def ATTRS_codeKey_def hiddenAttr_def

definition isToggle :: "elem \<Rightarrow> bool" where
  "isToggle e = (tagName e = ''button'' \<and>
     (CLASSES_messageToggle \<in> classList e \<or> CLASSES_codeToggle \<in> classList e))"

text \<open>
  The elements that belong to the extension: toggle buttons, the banner and the style
  tag, told by the reserved class names and ids.
\<close>

definition owned :: "elem \<Rightarrow> bool" where
  "owned e = (isToggle e \<or> elemId e = IDS_banner \<or> elemId e = IDS_styleTag)"

text \<open>The elements that the selectors of the content script look for in the host page.\<close>

definition selectable :: "elem \<Rightarrow> bool" where
  "selectable e =
     (tagName e = ''article'' \<or> tagName e = ''pre'' \<or> userRoleContainer e \<or> threadRoot e)"

definition newStyle :: "page \<Rightarrow> page" where
  "newStyle s =
     updateElem (nextId s) (\<lambda>e. e\<lparr>elemId := IDS_styleTag\<rparr>) (snd (createElement ''style'' s))"

text \<open>The state after the creation of a toggle button.\<close>
definition newToggle :: "string \<Rightarrow> string \<Rightarrow> string \<Rightarrow> page \<Rightarrow> page" where
  "newToggle c a k s =
     setAttribute (nextId s) a k
       (updateElem (nextId s) (\<lambda>e. e\<lparr>classList := {c}\<rparr>)
          (setAttribute (nextId s) ''type'' ''button'' (snd (createElement ''button'' s))))"

definition newBanner :: "page \<Rightarrow> page" where
  "newBanner s =
     setAttribute (nextId s) ''aria-live'' ''polite''
       (setAttribute (nextId s) ''role'' ''status''
          (updateElem (nextId s) (\<lambda>e. e\<lparr>elemId := IDS_banner\<rparr>) (snd (createElement ''div'' s))))"

text \<open>
  The elements that a step may relabel, move or remove: toggle buttons and the style tag,
  and in a step of the banner code (\<open>q\<close> false) the banner as well.
\<close>

definition ext :: "elem \<Rightarrow> bool" where
  "ext e = (isToggle e \<or> elemId e = IDS_styleTag)"

definition touch :: "bool \<Rightarrow> elem \<Rightarrow> bool" where
  "touch q e = (ext e \<or> (\<not> q \<and> elemId e = IDS_banner))"

inductive step :: "bool \<Rightarrow> page \<Rightarrow> page \<Rightarrow> bool" where
  collapse: "c = CLASSES_collapsedUserMessage \<or> c = CLASSES_collapsedCodeBlock \<Longrightarrow>
      step q s (classToggle n c b s)"
| expanded: "step q s (setAttribute n ''aria-expanded'' v s)"
| label: "touch q (elems s n) \<Longrightarrow> step q s (setTextContent n v s)"
| toggle: "(c = CLASSES_messageToggle \<and> a = ATTRS_messageKey) \<or> (c = CLASSES_codeToggle \<and> a = ATTRS_codeKey) \<Longrightarrow>
      step q s (newToggle c a k s)"
| banner: "step False s (newBanner s)"
| style: "step q s (newStyle s)"
| move: "touch q (elems s n) \<Longrightarrow> preInsert p n (Some c) s = (None, t) \<Longrightarrow> step q s t"
| append: "touch q (elems s n) \<Longrightarrow> \<not> owned (elems s p) \<Longrightarrow> p \<in> set (pre (heap s)) \<Longrightarrow>
      preInsert p n None s = (None, t) \<Longrightarrow> step q s t"
| remove: "touch q (elems s n) \<Longrightarrow> step q s (removeNode n s)"
| message: "messages s k = None \<Longrightarrow> step q s (s\<lparr>messages := (messages s)(k \<mapsto> True)\<rparr>)"
| code: "codeBlocks s k = None \<Longrightarrow> step q s (s\<lparr>codeBlocks := (codeBlocks s)(k \<mapsto> True)\<rparr>)"
| messageListener: "step q s (s\<lparr>messageListeners := x\<rparr>)"
| codeListener: "step q s (s\<lparr>codeListeners := y\<rparr>)"

abbreviation steps :: "bool \<Rightarrow> page \<Rightarrow> page \<Rightarrow> bool" where
  "steps q \<equiv> (step q)\<^sup>*\<^sup>*"

subsection \<open>Properties that the steps keep\<close>


definition hiddenOf :: "elem \<Rightarrow> bool \<times> string option" where
  "hiddenOf e = (CLASSES_hiddenTurn \<in> classList e, attributes e hiddenAttr)"

definition keepsHidden :: "page \<Rightarrow> page \<Rightarrow> bool" where
  "keepsHidden s t =
     (nextId s \<le> nextId t \<and>
      (\<forall>n. hiddenOf (elems t n) = hiddenOf (elems s n) \<or>
           (nextId s \<le> n \<and> hiddenOf (elems t n) = (False, None))))"

definition markersAgree :: "elem \<Rightarrow> bool" where
  "markersAgree e = ((CLASSES_hiddenTurn \<in> classList e) = (attributes e hiddenAttr = Some ''1''))"

definition agreeKept :: "page \<Rightarrow> page \<Rightarrow> bool" where
  "agreeKept s t = (\<forall>n. markersAgree (elems s n) \<longrightarrow> markersAgree (elems t n))"

text \<open>The collapse-state maps only gain entries, each with the value true.\<close>

definition mapGrows :: "(string \<rightharpoonup> bool) \<Rightarrow> (string \<rightharpoonup> bool) \<Rightarrow> bool" where
  "mapGrows m m' = (\<forall>k. m' k = m k \<or> (m k = None \<and> m' k = Some True))"

subsection \<open>Leaves\<close>

text \<open>Every node of the forest with the identity \<open>n\<close> has no children.\<close>


fun leafy :: "nid \<Rightarrow> tree list \<Rightarrow> bool" where
  "leafy n [] = True"
| "leafy n (Tree m ts # us) = ((m = n \<longrightarrow> ts = []) \<and> leafy n ts \<and> leafy n us)"

subsection \<open>Well-formed pages\<close>

text \<open>
  A well-formed page: the identities of the elements are distinct and allocated; the
  reserved class names and ids are carried only by elements as the extension creates
  them (leaves that no selector for the host page matches); and the document is an HTML
  document, whose root is the html element.
\<close>


definition wellFormed :: "page \<Rightarrow> bool" where
  "wellFormed s =
     (distinct (pre (heap s)) \<and> (\<forall>n \<in> set (pre (heap s)). n < nextId s) \<and>
      (\<forall>n. owned (elems s n) \<longrightarrow> leafy n (heap s) \<and> \<not> selectable (elems s n)) \<and>
      (\<forall>n. isToggle (elems s n) \<longrightarrow> elemId (elems s n) \<noteq> IDS_banner) \<and>
      (\<exists>r ts. document s = [Tree r ts] \<and> tagName (elems s r) = ''html'' \<and> \<not> owned (elems s r)))"

definition sameData :: "elem \<Rightarrow> elem \<Rightarrow> bool" where
  "sameData e e' =
     (tagName e' = tagName e \<and> isHTMLElement e' = isHTMLElement e \<and> elemId e' = elemId e \<and>
      (\<forall>a. a \<noteq> ''aria-expanded'' \<longrightarrow> a \<noteq> hiddenAttr \<longrightarrow> attributes e' a = attributes e a) \<and>
      (CLASSES_messageToggle \<in> classList e') = (CLASSES_messageToggle \<in> classList e) \<and>
      (CLASSES_codeToggle \<in> classList e') = (CLASSES_codeToggle \<in> classList e))"

definition hostNodes :: "page \<Rightarrow> nid list" where
  "hostNodes s = filter (\<lambda>x. \<not> owned (elems s x)) (pre (document s))"

definition sameHost :: "page \<Rightarrow> page \<Rightarrow> bool" where
  "sameHost s t =
     (nextId s \<le> nextId t \<and> (\<forall>x < nextId s. sameData (elems s x) (elems t x)) \<and>
      hostNodes t = hostNodes s \<and>
      (\<forall>x \<in> set (pre (heap s)). \<not> owned (elems s x) \<longrightarrow>
         x \<in> set (pre (heap t)) \<and> ancestorsOf x (heap t) = ancestorsOf x (heap s) \<and>
         parentOf x (heap t) = parentOf x (heap s)))"

text \<open>A step of the pass: a step of the collapse and banner code, or a write of the
  hidden markers of a turn, or of the minimal-UI class.\<close>

inductive pstep :: "page \<Rightarrow> page \<Rightarrow> bool" where
  base: "step q s t \<Longrightarrow> pstep s t"
| hide: "pstep s (setTurnHidden n b s)"
| minimal: "pstep s (classToggle n CLASSES_minimalUi b s)"

text \<open>The second forest arises from the first by taking out or putting in the leaf \<open>n\<close>.\<close>

definition leafEdit :: "nid \<Rightarrow> tree list \<Rightarrow> tree list \<Rightarrow> bool" where
  "leafEdit n f g =
     (filter (\<lambda>x. x \<noteq> n) (pre g) = filter (\<lambda>x. x \<noteq> n) (pre f) \<and>
      (\<forall>x. x \<noteq> n \<longrightarrow> ancestorsOf x g = ancestorsOf x f \<and> parentOf x g = parentOf x f \<and>
          filter (\<lambda>y. y \<noteq> n) (descendants x g) = filter (\<lambda>y. y \<noteq> n) (descendants x f)))"

text \<open>The elements of the document that carry the id of the banner.\<close>


definition bannerNodes :: "page \<Rightarrow> nid list" where
  "bannerNodes s = filter (\<lambda>x. elemId (elems s x) = IDS_banner) (pre (document s))"

text \<open>At most one element of the document carries the id of the banner.\<close>


definition singleBanner :: "page \<Rightarrow> bool" where
  "singleBanner s = (length (bannerNodes s) \<le> 1)"

section \<open>A small conversation page\<close>

text \<open>
  A page as the host site serves it, before the content script has run: three turns in the
  thread container, the first and the last with a user message, the second with a code block.
  The stored keep count is 2.
\<close>

definition mk :: "string \<Rightarrow> string \<Rightarrow> (string \<times> string) list \<Rightarrow> elem" where
  "mk t i as = (blankElement t)\<lparr>elemId := i, attributes := map_of as\<rparr>"

definition demoElems :: "nid \<Rightarrow> elem" where
  "demoElems =
     (\<lambda>_. blankElement ''div'')
     (1 := mk ''html'' [] [],
      2 := mk ''body'' [] [],
      3 := mk ''main'' [] [],
      4 := mk ''div'' ''thread'' [],
      5 := mk ''article'' [] [(''data-testid'', ''conversation-turn-1'')],
      6 := mk ''div'' [] [(''data-message-author-role'', ''user'')],
      7 := mk ''article'' [] [(''data-testid'', ''conversation-turn-2'')],
      8 := mk ''div'' [] [(''data-message-author-role'', ''assistant'')],
      9 := mk ''pre'' [] [],
      10 := mk ''article'' [] [(''data-testid'', ''conversation-turn-3'')],
      11 := mk ''div'' [] [(''data-message-author-role'', ''user'')])"

definition demoPage :: page where
  "demoPage =
     \<lparr>document =
        [Tree 1 [Tree 2 [Tree 3 [Tree 4
           [Tree 5 [Tree 6 []], Tree 7 [Tree 8 [Tree 9 []]], Tree 10 [Tree 11 []]]]]]],
      detached = [],
      elems = demoElems,
      nextId = 12,
      messages = Map.empty,
      codeBlocks = Map.empty,
      messageListeners = Map.empty,
      codeListeners = Map.empty,
      storage = [''keepLastN'' \<mapsto> JInt 2],
      contextValid = True,
      listenersAttached = False,
      captureClickListeners = 0,
      sent = []\<rparr>"

text \<open>The small page after one pass: its first turn is hidden and the banner is shown.\<close>

definition trimmedPage :: page where
  "trimmedPage = snd (applyTrimming demoPage)"

text \<open>An element without its hidden markers.\<close>

definition shown :: "elem \<Rightarrow> elem" where
  "shown e = e\<lparr>classList := classList e - {CLASSES_hiddenTurn},
               attributes := (attributes e)(hiddenAttr := None)\<rparr>"

text \<open>
  What a pass leaves alone outside the document: the storage, the responses sent and the
  validity of the extension context; the collapse-state maps only grow.
\<close>

definition keepsStore :: "page \<Rightarrow> page \<Rightarrow> bool" where
  "keepsStore s t =
     (mapGrows (messages s) (messages t) \<and> mapGrows (codeBlocks s) (codeBlocks t) \<and>
      storage t = storage s \<and> sent t = sent s \<and> contextValid t = contextValid s)"


section \<open>Decimal numerals\<close>

lemma digitChar_isDigit: "d < 10 \<Longrightarrow> isDigit (digitChar d)"
proof -
  assume "d < 10"
  then have "d \<in> {0, 1, 2, 3, 4, 5, 6, 7, 8, 9}" by auto
  then show ?thesis by (auto simp: isDigit_def digitChar_def)
qed

lemma digitValue_digitChar: "d < 10 \<Longrightarrow> digitValue (digitChar d) = d"
proof -
  assume "d < 10"
  then have "d \<in> {0, 1, 2, 3, 4, 5, 6, 7, 8, 9}" by auto
  then show ?thesis by (auto simp: digitValue_def digitChar_def)
qed

lemma digits_nonempty: "digits n \<noteq> []"
  by (subst digits.simps) simp

lemma digits_all_digit: "\<forall>c \<in> set (digits n). isDigit c"
proof (induction n rule: digits.induct)
  case (1 n)
  show ?case
  proof (cases "n < 10")
    case True
    then show ?thesis by (subst digits.simps) (simp add: digitChar_isDigit)
  next
    case False
    with 1 show ?thesis by (subst digits.simps) (simp add: digitChar_isDigit)
  qed
qed

lemma digitsValue_snoc: "digitsValue (z @ [c]) = 10 * digitsValue z + digitValue c"
  by (simp add: digitsValue_def)

lemma digitsValue_digits: "digitsValue (digits n) = n"
proof (induction n rule: digits.induct)
  case (1 n)
  show ?case
  proof (cases "n < 10")
    case True
    then show ?thesis by (subst digits.simps) (simp add: digitsValue_def digitValue_digitChar)
  next
    case False
    with 1 show ?thesis
      by (subst digits.simps) (simp add: digitsValue_snoc digitValue_digitChar)
  qed
qed

lemma isDigit_not_special:
  "isDigit c \<Longrightarrow> \<not> isWhiteSpace c \<and> c \<noteq> CHR ''-'' \<and> c \<noteq> CHR ''+''"
  by (auto simp: isDigit_def isWhiteSpace_def)

lemma parseInt10_digits: "parseInt10 (digits n) = Num (int n)"
proof -
  obtain c cs where cs: "digits n = c # cs"
    using digits_nonempty [of n] by (cases "digits n") auto
  have all: "\<forall>c \<in> set (digits n). isDigit c" by (rule digits_all_digit)
  then have c: "isDigit c" using cs by simp
  have tw: "takeWhile isDigit (digits n) = digits n"
    using all by (simp add: takeWhile_eq_all_conv)
  show ?thesis
    using c isDigit_not_special [OF c] tw digitsValue_digits [of n] cs
    by (simp add: parseInt10_def Let_def del: takeWhile_eq_all_conv)
qed

lemma parseInt10_neg_digits: "parseInt10 (CHR ''-'' # digits n) = Num (- int n)"
proof -
  have all: "\<forall>c \<in> set (digits n). isDigit c" by (rule digits_all_digit)
  have tw: "takeWhile isDigit (digits n) = digits n"
    using all by (simp add: takeWhile_eq_all_conv)
  have w: "\<not> isWhiteSpace CHR ''-''" by (simp add: isWhiteSpace_def)
  show ?thesis
    using tw digitsValue_digits [of n] digits_nonempty [of n] w
    by (simp add: parseInt10_def Let_def del: takeWhile_eq_all_conv)
qed

lemma parseInt10_numberToString: "parseInt10 (numberToString i) = Num i"
  by (simp add: numberToString_def parseInt10_digits parseInt10_neg_digits)

lemma clampKeepLastN_cases:
  "clampKeepLastN v =
     (case parseInt10 (toString v) of
        NaN \<Rightarrow> 6
      | Num i \<Rightarrow> if \<bar>i\<bar> < 2 ^ 1024 - 2 ^ 970 then min 500 (max 1 i) else 6)"
  by (simp add: clampKeepLastN_def Let_def DEFAULT_SETTINGS_def minKeepLastN_def
      maxKeepLastN_def split: parsed.splits)

lemma clampKeepLastN_range: "1 \<le> clampKeepLastN v \<and> clampKeepLastN v \<le> 500"
  by (simp add: clampKeepLastN_cases split: parsed.splits)

section \<open>The collapse and banner code as steps\<close>

lemma steps_then: "steps q s t \<Longrightarrow> step q t u \<Longrightarrow> steps q s u"
  by (rule rtranclp.rtrancl_into_rtrancl)

lemma elems_classToggle [simp]:
  "elems (classToggle n c b s) =
     (elems s)(n := (elems s n)\<lparr>classList := (if b then insert c (classList (elems s n)) else classList (elems s n) - {c})\<rparr>)"
  by (simp add: classToggle_def updateElem_def)

lemma elems_setAttribute [simp]:
  "elems (setAttribute n a v s) = (elems s)(n := (elems s n)\<lparr>attributes := (attributes (elems s n))(a \<mapsto> v)\<rparr>)"
  by (simp add: setAttribute_def updateElem_def)

lemma elems_setTextContent [simp]:
  "elems (setTextContent n v s) = (elems s)(n := (elems s n)\<lparr>textContent := v\<rparr>)"
  by (simp add: setTextContent_def updateElem_def Let_def)

lemma owned_simps [simp]:
  "owned (e\<lparr>textContent := v\<rparr>) = owned e"
  "owned (e\<lparr>attributes := x\<rparr>) = owned e"
  "c \<noteq> CLASSES_messageToggle \<Longrightarrow> c \<noteq> CLASSES_codeToggle \<Longrightarrow> owned (e\<lparr>classList := insert c (classList e)\<rparr>) = owned e"
  "c \<noteq> CLASSES_messageToggle \<Longrightarrow> c \<noteq> CLASSES_codeToggle \<Longrightarrow> owned (e\<lparr>classList := classList e - {c}\<rparr>) = owned e"
  by (auto simp: owned_def isToggle_def)

lemma owned_classToggle [simp]:
  "c \<noteq> CLASSES_messageToggle \<Longrightarrow> c \<noteq> CLASSES_codeToggle \<Longrightarrow>
   owned (elems (classToggle n c b s) x) = owned (elems s x)"
  by (auto simp: owned_def isToggle_def)

lemma owned_setAttribute [simp]: "owned (elems (setAttribute n a v s) x) = owned (elems s x)"
  by (auto simp: owned_def isToggle_def)

lemma touch_owned: "touch q e \<Longrightarrow> owned e"
  by (auto simp: touch_def ext_def owned_def)

lemma touch_classToggle [simp]:
  "c \<noteq> CLASSES_messageToggle \<Longrightarrow> c \<noteq> CLASSES_codeToggle \<Longrightarrow>
   touch q (elems (classToggle n c b s) x) = touch q (elems s x)"
  by (auto simp: touch_def ext_def isToggle_def)

lemma touch_setAttribute [simp]: "touch q (elems (setAttribute n a v s) x) = touch q (elems s x)"
  by (auto simp: touch_def ext_def isToggle_def)

lemma find_SomeD: "find P xs = Some x \<Longrightarrow> P x \<and> x \<in> set xs"
  by (induction xs) (auto split: if_splits)

lemma steps_setMessageCollapsed:
  assumes "steps q s t" "touch q (elems t b)"
  shows "steps q s (setMessageCollapsed m b c t)"
proof -
  let ?t1 = "classToggle m CLASSES_collapsedUserMessage c t"
  let ?t2 = "setAttribute b ''aria-expanded'' (boolToString (\<not> c)) ?t1"
  have 1: "steps q s ?t1" by (rule steps_then [OF assms(1)]) (rule step.collapse, simp)
  have 2: "steps q s ?t2" by (rule steps_then [OF 1]) (rule step.expanded)
  have o: "touch q (elems ?t2 b)" using assms(2)
    by (simp add: names_defs del: elems_classToggle elems_setAttribute)
  show ?thesis unfolding setMessageCollapsed_def Let_def
    by (rule steps_then [OF 2]) (rule step.label [OF o])
qed

lemma preInsert_failed: "preInsert p n c s = (Some e, t) \<Longrightarrow> t = s"
  by (auto simp: preInsert_def Let_def split: if_splits option.splits)

lemma touch_newToggle:
  "(c = CLASSES_messageToggle \<or> c = CLASSES_codeToggle) \<Longrightarrow> touch q (elems (newToggle c a k s) (nextId s))"
  by (auto simp: newToggle_def touch_def ext_def isToggle_def updateElem_def createElement_def
      blankElement_def)

lemma find_buttonWithClass:
  "findChildButtonByKey r c a k s = Some b \<Longrightarrow>
   buttonWithClass c (elems s b) \<and> isHTMLButtonElement (elems s b) \<and>
   getAttribute b a s = Some k \<and> b \<in> set (descendants r (heap s))"
  unfolding findChildButtonByKey_def querySelectorAllIn_def
  by (drule find_SomeD) simp

lemma ensureMessageToggle_unfold:
  "ensureMessageToggle turn m k t =
     (let host = (case parentElement m t of Some p \<Rightarrow> p | None \<Rightarrow> turn);
          found = findChildButtonByKey turn CLASSES_messageToggle ATTRS_messageKey k t;
          b = (case found of Some x \<Rightarrow> x | None \<Rightarrow> nextId t);
          t1 = (case found of Some x \<Rightarrow> t | None \<Rightarrow>
                  (newToggle CLASSES_messageToggle ATTRS_messageKey k t)\<lparr>messageListeners :=
                     (messageListeners (newToggle CLASSES_messageToggle ATTRS_messageKey k t))
                       (nextId t \<mapsto> (k, m))\<rparr>)
      in (case (if parentElement b t1 \<noteq> Some host \<or> nextSibling b t1 \<noteq> Some m
                then insertBefore host b m t1 else (None, t1)) of
            (Some e, t2) \<Rightarrow> (Some e, t2)
          | (None, t2) \<Rightarrow>
              (let t3 = (if messages t2 k = None then t2\<lparr>messages := (messages t2)(k \<mapsto> True)\<rparr> else t2)
               in (None, setMessageCollapsed m b (messages t3 k = Some True) t3))))"
  by (simp add: ensureMessageToggle_def newToggle_def createElement_def Let_def
      split: option.splits)

lemma steps_ensureMessageToggle:
  assumes "steps q s t"
  shows "steps q s (snd (ensureMessageToggle turn m k t))"
proof -
  define host where "host = (case parentElement m t of Some p \<Rightarrow> p | None \<Rightarrow> turn)"
  define found where "found = findChildButtonByKey turn CLASSES_messageToggle ATTRS_messageKey k t"
  define b where "b = (case found of Some x \<Rightarrow> x | None \<Rightarrow> nextId t)"
  define t1 where "t1 = (case found of Some x \<Rightarrow> t | None \<Rightarrow>
      (newToggle CLASSES_messageToggle ATTRS_messageKey k t)\<lparr>messageListeners :=
         (messageListeners (newToggle CLASSES_messageToggle ATTRS_messageKey k t))(nextId t \<mapsto> (k, m))\<rparr>)"
  have s1: "steps q s t1"
  proof (cases found)
    case None
    have "steps q s (newToggle CLASSES_messageToggle ATTRS_messageKey k t)"
      by (rule steps_then [OF assms]) (rule step.toggle, simp)
    then show ?thesis unfolding t1_def None
      by (simp add: steps_then step.messageListener)
  next
    case (Some x)
    then show ?thesis by (simp add: t1_def assms)
  qed
  have o1: "touch q (elems t1 b)"
  proof (cases found)
    case None
    then show ?thesis using touch_newToggle [where c = CLASSES_messageToggle and a = ATTRS_messageKey and k = k and s = t and q = q]
      by (simp add: t1_def b_def)
  next
    case (Some x)
    then show ?thesis using find_buttonWithClass [of turn CLASSES_messageToggle ATTRS_messageKey k t x]
      by (simp add: t1_def b_def found_def touch_def ext_def isToggle_def buttonWithClass_def)
  qed
  obtain r t2 where ins: "(if parentElement b t1 \<noteq> Some host \<or> nextSibling b t1 \<noteq> Some m
      then insertBefore host b m t1 else (None, t1)) = (r, t2)" by fastforce
  have unfold: "ensureMessageToggle turn m k t =
      (case (r, t2) of (Some e, u) \<Rightarrow> (Some e, u)
       | (None, u) \<Rightarrow>
          (let s3 = (if messages u k = None then u\<lparr>messages := (messages u)(k \<mapsto> True)\<rparr> else u)
           in (None, setMessageCollapsed m b (messages s3 k = Some True) s3)))"
    unfolding ensureMessageToggle_unfold Let_def ins [symmetric] host_def b_def t1_def found_def ..
  show ?thesis
  proof (cases r)
    case (Some e)
    then have "t2 = t1" using ins preInsert_failed [of host b "Some m" t1 e t2]
      by (auto simp: insertBefore_def split: if_splits)
    then show ?thesis using s1 Some by (simp add: unfold)
  next
    case None
    have s2: "steps q s t2 \<and> elems t2 = elems t1"
    proof (cases "parentElement b t1 \<noteq> Some host \<or> nextSibling b t1 \<noteq> Some m")
      case True
      then have pi: "preInsert host b (Some m) t1 = (None, t2)" using ins None
        by (simp add: insertBefore_def)
      have "elems t2 = elems t1" using pi
        by (auto simp: preInsert_def Let_def split: if_splits option.splits)
      then show ?thesis using steps_then [OF s1 step.move [OF o1 pi]] by simp
    next
      case False
      then show ?thesis using ins s1 by auto
    qed
    define t3 where "t3 = (if messages t2 k = None then t2\<lparr>messages := (messages t2)(k \<mapsto> True)\<rparr> else t2)"
    have s3: "steps q s t3" using s2 by (auto simp: t3_def intro: steps_then step.message)
    have o3: "touch q (elems t3 b)" using o1 s2 by (simp add: t3_def)
    show ?thesis using None steps_setMessageCollapsed [OF s3 o3]
      by (simp add: unfold Let_def t3_def)
  qed
qed


lemma steps_messageTurnLoop:
  "steps q s t \<Longrightarrow> steps q s (snd (messageTurnLoop turns i t))"
proof (induction turns arbitrary: i t)
  case Nil
  then show ?case by simp
next
  case (Cons turn rest)
  show ?case
  proof (cases "findUserMessageNode turn t")
    case None
    then show ?thesis using Cons by simp
  next
    case (Some m)
    obtain r t1 where e: "ensureMessageToggle turn m (getTurnKey turn i t @ ''::user-message'') t = (r, t1)"
      by fastforce
    have s1: "steps q s t1" using steps_ensureMessageToggle [OF Cons.prems, of turn m] e
      by (metis snd_conv)
    show ?thesis using Some e s1 Cons.IH [OF s1] by (cases r) simp_all
  qed
qed

lemma classRemove_classToggle: "classRemove n c s = classToggle n c False s"
  by (simp add: classRemove_def classToggle_def)

lemma elems_removeNode [simp]: "elems (removeNode n s) = elems s"
  by (simp add: removeNode_def split: option.splits)

lemma steps_fold_removeNode:
  "steps q s t \<Longrightarrow> \<forall>n \<in> set ns. touch q (elems t n) \<Longrightarrow> steps q s (fold removeNode ns t)"
proof (induction ns arbitrary: t)
  case Nil
  then show ?case by simp
next
  case (Cons n ns)
  have "steps q s (removeNode n t)" using Cons.prems by (auto intro: steps_then step.remove)
  then show ?case using Cons.IH [of "removeNode n t"] Cons.prems by simp
qed

lemma steps_fold_classRemove:
  "steps q s t \<Longrightarrow> c = CLASSES_collapsedUserMessage \<or> c = CLASSES_collapsedCodeBlock \<Longrightarrow>
   steps q s (fold (\<lambda>node. classRemove node c) ns t)"
proof (induction ns arbitrary: t)
  case Nil
  then show ?case by simp
next
  case (Cons n ns)
  have "steps q s (classRemove n c t)" unfolding classRemove_classToggle
    using Cons.prems by (auto intro: steps_then step.collapse)
  then show ?case using Cons.IH [of "classRemove n c t"] Cons.prems by simp
qed

lemma steps_cleanupMessageCollapsers:
  "steps q s t \<Longrightarrow> steps q s (cleanupMessageCollapsers t)"
  unfolding cleanupMessageCollapsers_def Let_def
  by (rule steps_fold_classRemove, rule steps_fold_removeNode)
     (auto simp: querySelectorAll_def touch_def ext_def isToggle_def buttonWithClass_def)

lemma steps_cleanupCodeCollapsers:
  "steps q s t \<Longrightarrow> steps q s (cleanupCodeCollapsers t)"
  unfolding cleanupCodeCollapsers_def Let_def
  by (rule steps_fold_classRemove, rule steps_fold_removeNode)
     (auto simp: querySelectorAll_def touch_def ext_def isToggle_def buttonWithClass_def)

lemma steps_applyMessageCollapsers:
  "steps q s t \<Longrightarrow> steps q s (snd (applyMessageCollapsers turns enabled t))"
  by (simp add: applyMessageCollapsers_def steps_cleanupMessageCollapsers steps_messageTurnLoop)


lemma steps_setCodeCollapsed:
  assumes "steps q s t" "touch q (elems t b)"
  shows "steps q s (setCodeCollapsed p b c t)"
proof -
  let ?t1 = "classToggle p CLASSES_collapsedCodeBlock c t"
  let ?t2 = "setAttribute b ''aria-expanded'' (boolToString (\<not> c)) ?t1"
  have 1: "steps q s ?t1" by (rule steps_then [OF assms(1)]) (rule step.collapse, simp)
  have 2: "steps q s ?t2" by (rule steps_then [OF 1]) (rule step.expanded)
  have o: "touch q (elems ?t2 b)" using assms(2)
    by (simp add: names_defs del: elems_classToggle elems_setAttribute)
  show ?thesis unfolding setCodeCollapsed_def Let_def
    by (rule steps_then [OF 2]) (rule step.label [OF o])
qed

lemma ensureCodeToggle_unfold:
  "ensureCodeToggle p k t =
     (case parentElement p t of
        None \<Rightarrow> (None, t)
      | Some host \<Rightarrow>
     (let found = findChildButtonByKey host CLASSES_codeToggle ATTRS_codeKey k t;
          b = (case found of Some x \<Rightarrow> x | None \<Rightarrow> nextId t);
          t1 = (case found of Some x \<Rightarrow> t | None \<Rightarrow>
                  (newToggle CLASSES_codeToggle ATTRS_codeKey k t)\<lparr>codeListeners :=
                     (codeListeners (newToggle CLASSES_codeToggle ATTRS_codeKey k t))
                       (nextId t \<mapsto> (k, p))\<rparr>)
      in (case (if parentElement b t1 \<noteq> Some host \<or> nextSibling b t1 \<noteq> Some p
                then insertBefore host b p t1 else (None, t1)) of
            (Some e, t2) \<Rightarrow> (Some e, t2)
          | (None, t2) \<Rightarrow>
              (let t3 = (if codeBlocks t2 k = None then t2\<lparr>codeBlocks := (codeBlocks t2)(k \<mapsto> True)\<rparr> else t2)
               in (None, setCodeCollapsed p b (codeBlocks t3 k = Some True) t3)))))"
  by (simp add: ensureCodeToggle_def newToggle_def createElement_def Let_def
      split: option.splits)

lemma steps_ensureCodeToggle:
  assumes "steps q s t"
  shows "steps q s (snd (ensureCodeToggle p k t))"
proof (cases "parentElement p t")
  case None
  then show ?thesis using assms by (simp add: ensureCodeToggle_unfold)
next
  case (Some host)
  define found where "found = findChildButtonByKey host CLASSES_codeToggle ATTRS_codeKey k t"
  define b where "b = (case found of Some x \<Rightarrow> x | None \<Rightarrow> nextId t)"
  define t1 where "t1 = (case found of Some x \<Rightarrow> t | None \<Rightarrow>
      (newToggle CLASSES_codeToggle ATTRS_codeKey k t)\<lparr>codeListeners :=
         (codeListeners (newToggle CLASSES_codeToggle ATTRS_codeKey k t))(nextId t \<mapsto> (k, p))\<rparr>)"
  have s1: "steps q s t1"
  proof (cases found)
    case None
    have "steps q s (newToggle CLASSES_codeToggle ATTRS_codeKey k t)"
      by (rule steps_then [OF assms]) (rule step.toggle, simp)
    then show ?thesis unfolding t1_def None
      by (simp add: steps_then step.codeListener)
  next
    case (Some x)
    then show ?thesis by (simp add: t1_def assms)
  qed
  have o1: "touch q (elems t1 b)"
  proof (cases found)
    case None
    then show ?thesis using touch_newToggle [where c = CLASSES_codeToggle and a = ATTRS_codeKey and k = k and s = t and q = q]
      by (simp add: t1_def b_def)
  next
    case (Some x)
    then show ?thesis using find_buttonWithClass [of host CLASSES_codeToggle ATTRS_codeKey k t x]
      by (simp add: t1_def b_def found_def touch_def ext_def isToggle_def buttonWithClass_def)
  qed
  obtain r t2 where ins: "(if parentElement b t1 \<noteq> Some host \<or> nextSibling b t1 \<noteq> Some p
      then insertBefore host b p t1 else (None, t1)) = (r, t2)" by fastforce
  have unfold: "ensureCodeToggle p k t =
      (case (r, t2) of (Some e, u) \<Rightarrow> (Some e, u)
       | (None, u) \<Rightarrow>
          (let s3 = (if codeBlocks u k = None then u\<lparr>codeBlocks := (codeBlocks u)(k \<mapsto> True)\<rparr> else u)
           in (None, setCodeCollapsed p b (codeBlocks s3 k = Some True) s3)))"
    unfolding ensureCodeToggle_unfold Let_def ins [symmetric] b_def t1_def found_def
    by (simp add: Some)
  show ?thesis
  proof (cases r)
    case (Some e)
    then have "t2 = t1" using ins preInsert_failed [of host b "Some p" t1 e t2]
      by (auto simp: insertBefore_def split: if_splits)
    then show ?thesis using s1 Some by (simp add: unfold)
  next
    case None
    have s2: "steps q s t2 \<and> elems t2 = elems t1"
    proof (cases "parentElement b t1 \<noteq> Some host \<or> nextSibling b t1 \<noteq> Some p")
      case True
      then have pi: "preInsert host b (Some p) t1 = (None, t2)" using ins None
        by (simp add: insertBefore_def)
      have "elems t2 = elems t1" using pi
        by (auto simp: preInsert_def Let_def split: if_splits option.splits)
      then show ?thesis using steps_then [OF s1 step.move [OF o1 pi]] by simp
    next
      case False
      then show ?thesis using ins s1 by auto
    qed
    define t3 where "t3 = (if codeBlocks t2 k = None then t2\<lparr>codeBlocks := (codeBlocks t2)(k \<mapsto> True)\<rparr> else t2)"
    have s3: "steps q s t3" using s2 by (auto simp: t3_def intro: steps_then step.code)
    have o3: "touch q (elems t3 b)" using o1 s2 by (simp add: t3_def)
    show ?thesis using None steps_setCodeCollapsed [OF s3 o3]
      by (simp add: unfold Let_def t3_def)
  qed
qed

lemma steps_codeBlockLoop:
  "steps q s t \<Longrightarrow> steps q s (snd (codeBlockLoop key ps i t))"
proof (induction ps arbitrary: i t)
  case Nil
  then show ?case by simp
next
  case (Cons p rest)
  show ?case
  proof (cases "isHTMLElement (elems t p)")
    case False
    then show ?thesis using Cons by simp
  next
    case True
    obtain r t1 where e: "ensureCodeToggle p (key @ ''::code-block:'' @ numberToString (int i)) t = (r, t1)"
      by fastforce
    have s1: "steps q s t1" using steps_ensureCodeToggle [OF Cons.prems, of p] e
      by (metis snd_conv)
    show ?thesis using True e s1 Cons.IH [OF s1] by (cases r) simp_all
  qed
qed

lemma steps_codeTurnLoop:
  "steps q s t \<Longrightarrow> steps q s (snd (codeTurnLoop turns i t))"
proof (induction turns arbitrary: i t)
  case Nil
  then show ?case by simp
next
  case (Cons turn rest)
  obtain r t1 where e: "codeBlockLoop (getTurnKey turn i t) (querySelectorAllIn turn codeBlocksSel t) 0 t = (r, t1)"
    by fastforce
  have s1: "steps q s t1" using steps_codeBlockLoop [OF Cons.prems] e by (metis snd_conv)
  show ?case using e s1 Cons.IH [OF s1] by (cases r) simp_all
qed

lemma steps_applyCodeCollapsers:
  "steps q s t \<Longrightarrow> steps q s (snd (applyCodeCollapsers turns enabled t))"
  by (simp add: applyCodeCollapsers_def steps_cleanupCodeCollapsers steps_codeTurnLoop)

lemma steps_applyCollapsibleFeatures:
  assumes "steps q s t"
  shows "steps q s (snd (applyCollapsibleFeatures turns settings t))"
proof -
  obtain r t1 where e: "applyMessageCollapsers turns (collapseOwnMessages settings) t = (r, t1)"
    by fastforce
  have s1: "steps q s t1" using steps_applyMessageCollapsers [OF assms] e by (metis snd_conv)
  show ?thesis using e s1 steps_applyCodeCollapsers [OF s1]
    by (cases r) (simp_all add: applyCollapsibleFeatures_def)
qed

lemma getElementById_elemId: "getElementById i s = Some n \<Longrightarrow> elemId (elems s n) = i \<and> n \<in> set (pre (document s))"
  unfolding getElementById_def by (drule find_SomeD) simp

lemma steps_removeBanner:
  assumes "steps False s t"
  shows "steps False s (removeBanner t)"
proof (cases "getElementById IDS_banner t")
  case None
  then show ?thesis using assms by (simp add: removeBanner_def)
next
  case (Some n)
  then have "touch False (elems t n)" using getElementById_elemId by (simp add: touch_def)
  then have "steps False s (removeNode n t)" by (rule steps_then [OF assms step.remove])
  then show ?thesis using Some by (simp add: removeBanner_def)
qed

lemma touch_newBanner: "touch False (elems (newBanner s) (nextId s))"
  by (simp add: newBanner_def touch_def updateElem_def createElement_def blankElement_def)

lemma updateBanner_unfold:
  "updateBanner h tot keep turns s =
     (if h \<le> 0 then (None, removeBanner s)
      else (case getBannerHost turns s of
              None \<Rightarrow> (None, s)
            | Some host \<Rightarrow>
                (case getElementById IDS_banner s of
                   Some banner \<Rightarrow> (None, setTextContent banner (bannerText h tot keep) s)
                 | None \<Rightarrow>
                     (case preInsert host (nextId s)
                             (if length turns > 0 then Some (hd turns) else firstChild host (newBanner s))
                             (newBanner s) of
                        (Some e, s5) \<Rightarrow> (Some e, s5)
                      | (None, s5) \<Rightarrow>
                          (None, setTextContent (nextId s) (bannerText h tot keep) s5)))))"
  by (simp add: updateBanner_def newBanner_def createElement_def Let_def insertBefore_def
      prepend_def split: option.splits)

lemma steps_updateBanner:
  assumes "steps False s t" "turns \<noteq> []"
  shows "steps False s (snd (updateBanner h tot keep turns t))"
proof (cases "h \<le> 0")
  case True
  then show ?thesis using steps_removeBanner [OF assms(1)] by (simp add: updateBanner_unfold)
next
  case False
  show ?thesis
  proof (cases "getBannerHost turns t")
    case None
    then show ?thesis using False assms by (simp add: updateBanner_unfold)
  next
    case (Some host)
    show ?thesis
    proof (cases "getElementById IDS_banner t")
      case (Some banner)
      then have "touch False (elems t banner)" using getElementById_elemId by (simp add: touch_def)
      then show ?thesis using False \<open>getBannerHost turns t = Some host\<close> Some assms
        by (auto simp: updateBanner_unfold intro: steps_then step.label)
    next
      case None
      obtain r t5 where pi: "preInsert host (nextId t) (Some (hd turns)) (newBanner t) = (r, t5)"
        by fastforce
      have s1: "steps False s (newBanner t)" using assms by (auto intro: steps_then step.banner)
      show ?thesis
      proof (cases r)
        case (Some e)
        then have "t5 = newBanner t" using pi preInsert_failed by blast
        then show ?thesis using False \<open>getBannerHost turns t = Some host\<close> None s1 pi Some assms(2)
          by (simp add: updateBanner_unfold)
      next
        case rNone: None
        have s5: "steps False s t5" using s1 pi rNone touch_newBanner [of t]
          by (auto intro: steps_then step.move)
        have "elems t5 = elems (newBanner t)" using pi
          by (auto simp: preInsert_def Let_def split: if_splits option.splits)
        then have "touch False (elems t5 (nextId t))" using touch_newBanner [of t] by simp
        then have "steps False s (setTextContent (nextId t) (bannerText h tot keep) t5)"
          using s5 by (auto intro: steps_then step.label)
        then show ?thesis using False \<open>getBannerHost turns t = Some host\<close> None pi rNone assms(2)
          by (simp add: updateBanner_unfold)
      qed
    qed
  qed
qed

subsection \<open>What every step keeps\<close>

lemma keepsHidden_refl [simp]: "keepsHidden s s"
  by (simp add: keepsHidden_def)

lemma keepsHidden_trans:
  assumes "keepsHidden s t" "keepsHidden t u"
  shows "keepsHidden s u"
proof -
  have le: "nextId s \<le> nextId t" "nextId t \<le> nextId u" using assms by (simp_all add: keepsHidden_def)
  have "hiddenOf (elems u n) = hiddenOf (elems s n) \<or>
        (nextId s \<le> n \<and> hiddenOf (elems u n) = (False, None))" for n
  proof -
    have a: "hiddenOf (elems t n) = hiddenOf (elems s n) \<or>
        (nextId s \<le> n \<and> hiddenOf (elems t n) = (False, None))"
      using assms(1) by (simp add: keepsHidden_def)
    have b: "hiddenOf (elems u n) = hiddenOf (elems t n) \<or>
        (nextId t \<le> n \<and> hiddenOf (elems u n) = (False, None))"
      using assms(2) by (simp add: keepsHidden_def)
    show ?thesis using a b le by auto
  qed
  then show ?thesis using le by (simp add: keepsHidden_def)
qed

lemma preInsert_data:
  "preInsert p n c s = (r, t) \<Longrightarrow>
   elems t = elems s \<and> nextId t = nextId s \<and> messages t = messages s \<and>
   codeBlocks t = codeBlocks s \<and> storage t = storage s \<and> sent t = sent s \<and>
   contextValid t = contextValid s \<and> messageListeners t = messageListeners s \<and>
   codeListeners t = codeListeners s"
  by (auto simp: preInsert_def Let_def split: if_splits option.splits)

lemma removeNode_data [simp]:
  "nextId (removeNode n s) = nextId s" "messages (removeNode n s) = messages s"
  "codeBlocks (removeNode n s) = codeBlocks s" "storage (removeNode n s) = storage s"
  "sent (removeNode n s) = sent s" "contextValid (removeNode n s) = contextValid s"
  by (simp_all add: removeNode_def split: option.splits)

lemma setTextContent_data [simp]:
  "nextId (setTextContent n v s) = nextId s" "messages (setTextContent n v s) = messages s"
  "codeBlocks (setTextContent n v s) = codeBlocks s" "storage (setTextContent n v s) = storage s"
  "sent (setTextContent n v s) = sent s" "contextValid (setTextContent n v s) = contextValid s"
  by (simp_all add: setTextContent_def updateElem_def Let_def)

lemma updateElem_data [simp]:
  "nextId (updateElem n f s) = nextId s" "messages (updateElem n f s) = messages s"
  "codeBlocks (updateElem n f s) = codeBlocks s" "storage (updateElem n f s) = storage s"
  "sent (updateElem n f s) = sent s" "contextValid (updateElem n f s) = contextValid s"
  "document (updateElem n f s) = document s" "detached (updateElem n f s) = detached s"
  "elems (updateElem n f s) = (elems s)(n := f (elems s n))"
  by (simp_all add: updateElem_def)

lemma classToggle_data [simp]:
  "nextId (classToggle n c b s) = nextId s" "messages (classToggle n c b s) = messages s"
  "codeBlocks (classToggle n c b s) = codeBlocks s" "storage (classToggle n c b s) = storage s"
  "sent (classToggle n c b s) = sent s" "contextValid (classToggle n c b s) = contextValid s"
  "document (classToggle n c b s) = document s" "detached (classToggle n c b s) = detached s"
  by (simp_all add: classToggle_def)

lemma setAttribute_data [simp]:
  "nextId (setAttribute n a v s) = nextId s" "messages (setAttribute n a v s) = messages s"
  "codeBlocks (setAttribute n a v s) = codeBlocks s" "storage (setAttribute n a v s) = storage s"
  "sent (setAttribute n a v s) = sent s" "contextValid (setAttribute n a v s) = contextValid s"
  "document (setAttribute n a v s) = document s" "detached (setAttribute n a v s) = detached s"
  by (simp_all add: setAttribute_def)

lemma removeAttribute_data [simp]:
  "nextId (removeAttribute n a s) = nextId s" "messages (removeAttribute n a s) = messages s"
  "codeBlocks (removeAttribute n a s) = codeBlocks s" "storage (removeAttribute n a s) = storage s"
  "sent (removeAttribute n a s) = sent s" "contextValid (removeAttribute n a s) = contextValid s"
  "document (removeAttribute n a s) = document s" "detached (removeAttribute n a s) = detached s"
  "elems (removeAttribute n a s) = (elems s)(n := (elems s n)\<lparr>attributes := (attributes (elems s n))(a := None)\<rparr>)"
  by (simp_all add: removeAttribute_def)

lemma createElement_data [simp]:
  "fst (createElement tg s) = nextId s"
  "nextId (snd (createElement tg s)) = Suc (nextId s)"
  "messages (snd (createElement tg s)) = messages s"
  "codeBlocks (snd (createElement tg s)) = codeBlocks s"
  "storage (snd (createElement tg s)) = storage s"
  "sent (snd (createElement tg s)) = sent s"
  "contextValid (snd (createElement tg s)) = contextValid s"
  "document (snd (createElement tg s)) = document s"
  "detached (snd (createElement tg s)) = detached s @ [Tree (nextId s) []]"
  "elems (snd (createElement tg s)) = (elems s)(nextId s := blankElement tg)"
  by (simp_all add: createElement_def)

lemma newToggle_data [simp]:
  "nextId (newToggle c a k s) = Suc (nextId s)" "messages (newToggle c a k s) = messages s"
  "codeBlocks (newToggle c a k s) = codeBlocks s" "storage (newToggle c a k s) = storage s"
  "sent (newToggle c a k s) = sent s" "contextValid (newToggle c a k s) = contextValid s"
  "document (newToggle c a k s) = document s"
  "detached (newToggle c a k s) = detached s @ [Tree (nextId s) []]"
  by (simp_all add: newToggle_def)

lemma newBanner_data [simp]:
  "nextId (newBanner s) = Suc (nextId s)" "messages (newBanner s) = messages s"
  "codeBlocks (newBanner s) = codeBlocks s" "storage (newBanner s) = storage s"
  "sent (newBanner s) = sent s" "contextValid (newBanner s) = contextValid s"
  "document (newBanner s) = document s"
  "detached (newBanner s) = detached s @ [Tree (nextId s) []]"
  by (simp_all add: newBanner_def)

lemma step_keepsHidden: "step q s t \<Longrightarrow> keepsHidden s t"
proof (induction rule: step.induct)
  case (collapse c q s n b)
  then show ?case by (auto simp: keepsHidden_def hiddenOf_def names_defs)
next
  case (expanded q s n v)
  then show ?case by (auto simp: keepsHidden_def hiddenOf_def names_defs)
next
  case (label q s n v)
  then show ?case by (auto simp: keepsHidden_def hiddenOf_def)
next
  case (toggle c a q s k)
  then show ?case
    by (auto simp: keepsHidden_def hiddenOf_def newToggle_def blankElement_def names_defs)
next
  case (banner s)
  then show ?case
    by (auto simp: keepsHidden_def hiddenOf_def newBanner_def blankElement_def names_defs)
next
  case (style q s)
  then show ?case
    by (auto simp: keepsHidden_def hiddenOf_def newStyle_def blankElement_def names_defs)
next
  case (move q s n p c t)
  then show ?case using preInsert_data [of p n "Some c" s None t] by (simp add: keepsHidden_def)
next
  case (append q s n p t)
  then show ?case using preInsert_data [of p n None s None t] by (simp add: keepsHidden_def)
next
  case (remove q s n)
  then show ?case by (simp add: keepsHidden_def)
qed (simp_all add: keepsHidden_def)

lemma steps_keepsHidden: "steps q s t \<Longrightarrow> keepsHidden s t"
  by (induction rule: rtranclp_induct) (auto intro: keepsHidden_trans step_keepsHidden)

lemma mapGrows_refl [simp]: "mapGrows m m"
  by (simp add: mapGrows_def)

lemma mapGrows_trans: "mapGrows a b \<Longrightarrow> mapGrows b c \<Longrightarrow> mapGrows a c"
  unfolding mapGrows_def by (metis)

lemma step_maps:
  "step q s t \<Longrightarrow> mapGrows (messages s) (messages t) \<and> mapGrows (codeBlocks s) (codeBlocks t) \<and>
     storage t = storage s \<and> sent t = sent s \<and> contextValid t = contextValid s"
proof (induction rule: step.induct)
  case (move q s n p c t)
  then show ?case using preInsert_data [of p n "Some c" s None t] by simp
next
  case (append q s n p t)
  then show ?case using preInsert_data [of p n None s None t] by simp
qed (auto simp: mapGrows_def newStyle_def)

lemma steps_maps:
  "steps q s t \<Longrightarrow> mapGrows (messages s) (messages t) \<and> mapGrows (codeBlocks s) (codeBlocks t) \<and>
     storage t = storage s \<and> sent t = sent s \<and> contextValid t = contextValid s"
proof (induction rule: rtranclp_induct)
  case base
  then show ?case by simp
next
  case (step y z)
  then show ?case using step_maps [of q y z] by (auto intro: mapGrows_trans)
qed

section \<open>Forests\<close>

lemma pre_Cons: "pre (t # us) = root t # pre (kids t) @ pre us"
  by (cases t) simp

lemma pre_append [simp]: "pre (f @ g) = pre f @ pre g"
  by (induction f rule: pre.induct) simp_all

lemma leafy_append [simp]: "leafy n (f @ g) = (leafy n f \<and> leafy n g)"
  by (induction f rule: pre.induct) auto

lemma roots_subset_pre: "set (map root f) \<subseteq> set (pre f)"
  by (induction f rule: pre.induct) auto

lemma pre_cut_subset: "set (pre (cutOut n f)) \<subseteq> set (pre f)"
  by (induction f rule: pre.induct) auto

lemma pre_cut_notin: "n \<notin> set (pre (cutOut n f))"
  by (induction f rule: pre.induct) auto

lemma cut_absent: "n \<notin> set (pre f) \<Longrightarrow> cutOut n f = f"
  by (induction f rule: pre.induct) auto

lemma pre_cut_leafy: "leafy n f \<Longrightarrow> pre (cutOut n f) = filter (\<lambda>x. x \<noteq> n) (pre f)"
  by (induction f rule: pre.induct) auto

lemma cut_append [simp]: "cutOut n (f @ g) = cutOut n f @ cutOut n g"
  by (induction f rule: pre.induct) auto

lemma distinct_pre_cut: "distinct (pre f) \<Longrightarrow> distinct (pre (cutOut n f))"
proof (induction f rule: pre.induct)
  case 1
  then show ?case by simp
next
  case (2 m ts us)
  then show ?case using pre_cut_subset [of n ts] pre_cut_subset [of n us] by auto
qed

lemma pre_placeBefore: "set (pre (placeBefore r t ts)) = set (pre [t]) \<union> set (pre ts)"
proof (induction r t ts rule: placeBefore.induct)
  case (3 r t u us)
  then show ?case by (auto simp: pre_Cons)
qed (auto simp: pre_Cons)

lemma filter_pre_placeBefore:
  "filter (\<lambda>x. x \<noteq> n) (pre (placeBefore r (Tree n []) ts)) = filter (\<lambda>x. x \<noteq> n) (pre ts)"
proof (induction r "Tree n []" ts rule: placeBefore.induct)
  case (3 r u us)
  then show ?case by (cases u) auto
qed auto

lemma filter_pre_insertInto:
  "filter (\<lambda>x. x \<noteq> n) (pre (insertInto p r (Tree n []) f)) = filter (\<lambda>x. x \<noteq> n) (pre f)"
  by (induction f rule: pre.induct) (auto simp: filter_pre_placeBefore)

lemma set_pre_insertInto:
  "set (pre (insertInto p r t f)) = set (pre f) \<union> (if p \<in> set (pre f) then set (pre [t]) else {})"
  by (induction f rule: pre.induct) (auto simp: pre_placeBefore)

lemma insertInto_absent: "p \<notin> set (pre f) \<Longrightarrow> insertInto p r t f = f"
  by (induction f rule: pre.induct) auto

lemma distinct_placeBefore:
  "distinct (pre ts) \<Longrightarrow> distinct (pre [t]) \<Longrightarrow> set (pre [t]) \<inter> set (pre ts) = {} \<Longrightarrow>
   distinct (pre (placeBefore r t ts))"
proof (induction r t ts rule: placeBefore.induct)
  case (3 r t u us)
  then show ?case using pre_placeBefore [of "Some r" t us] by (auto simp: pre_Cons)
qed (auto simp: pre_Cons)

lemma distinct_pre_insertInto:
  "distinct (pre f) \<Longrightarrow> distinct (pre [t]) \<Longrightarrow> set (pre [t]) \<inter> set (pre f) = {} \<Longrightarrow>
   distinct (pre (insertInto p r t f))"
proof (induction f rule: pre.induct)
  case 1
  then show ?case by simp
next
  case (2 m ts us)
  show ?case
  proof (cases "m = p")
    case True
    have "distinct (pre (placeBefore r t ts))"
      using 2 by (intro distinct_placeBefore) auto
    then show ?thesis using True 2 pre_placeBefore [of r t ts] by auto
  next
    case False
    have d1: "distinct (pre (insertInto p r t ts))" using 2 False by auto
    have d2: "distinct (pre (insertInto p r t us))" using 2 False by auto
    have "p \<notin> set (pre ts) \<or> p \<notin> set (pre us)" using 2 by auto
    then show ?thesis
    proof
      assume "p \<notin> set (pre ts)"
      then show ?thesis using False 2 d2 set_pre_insertInto [of p r t us]
        by (auto simp: insertInto_absent)
    next
      assume "p \<notin> set (pre us)"
      then show ?thesis using False 2 d1 set_pre_insertInto [of p r t ts]
        by (auto simp: insertInto_absent)
    qed
  qed
qed


subsection \<open>Ancestors, parents and subtrees\<close>

lemma ancestorsOf_subset: "set (ancestorsOf x f) \<subseteq> set (pre f)"
  by (induction f rule: pre.induct) (auto split: list.splits)

lemma ancestorsOf_empty_iff: "ancestorsOf x f = [] \<longleftrightarrow> x \<notin> set (pre f)"
  by (induction f rule: pre.induct) (auto split: list.splits)

lemma ancestorsOf_append:
  "ancestorsOf x (f @ g) = (if x \<in> set (pre f) then ancestorsOf x f else ancestorsOf x g)"
proof (induction f)
  case Nil
  then show ?case by simp
next
  case (Cons t f)
  obtain m ts where t: "t = Tree m ts" by (cases t)
  show ?case using Cons ancestorsOf_empty_iff [of x ts] ancestorsOf_empty_iff [of x f]
    by (auto simp: t split: list.splits)
qed

lemma ancestorsOf_hd: "x \<in> set (pre f) \<Longrightarrow> hd (ancestorsOf x f) = x"
proof (induction f rule: pre.induct)
  case 1
  then show ?case by simp
next
  case (2 m ts us)
  then show ?case using ancestorsOf_empty_iff [of x ts]
    by (cases "ancestorsOf x ts") auto
qed

lemma ancestorsOf_cut:
  "leafy n f \<Longrightarrow> x \<noteq> n \<Longrightarrow> ancestorsOf x (cutOut n f) = ancestorsOf x f"
  by (induction f rule: pre.induct) (auto split: list.splits)

lemma ancestorsOf_absent: "x \<notin> set (pre f) \<Longrightarrow> ancestorsOf x f = []"
  by (simp add: ancestorsOf_empty_iff)

lemma ancestorsOf_snoc_leaf: "x \<noteq> n \<Longrightarrow> ancestorsOf x (ts @ [Tree n []]) = ancestorsOf x ts"
  by (simp add: ancestorsOf_append ancestorsOf_absent)

lemma ancestorsOf_placeBefore:
  "x \<noteq> n \<Longrightarrow> ancestorsOf x (placeBefore r (Tree n []) ts) = ancestorsOf x ts"
proof (induction r "Tree n []" ts rule: placeBefore.induct)
  case (1 ts)
  then show ?case by (simp add: ancestorsOf_snoc_leaf)
next
  case (2 r)
  then show ?case by simp
next
  case (3 r u us)
  then show ?case by (cases u) (auto split: list.splits)
qed

lemma ancestorsOf_insertInto:
  "x \<noteq> n \<Longrightarrow> ancestorsOf x (insertInto p r (Tree n []) f) = ancestorsOf x f"
  by (induction f rule: pre.induct) (auto split: list.splits simp: ancestorsOf_placeBefore)

lemma parentOf_subset: "parentOf x f = Some p \<Longrightarrow> p \<in> set (pre f) \<and> x \<in> set (pre f)"
proof (induction f rule: pre.induct)
  case 1
  then show ?case by simp
next
  case (2 m ts us)
  then show ?case using roots_subset_pre [of ts] by (auto split: if_splits option.splits)
qed

lemma parentOf_append:
  "parentOf x (f @ g) = (case parentOf x f of Some p \<Rightarrow> Some p | None \<Rightarrow> parentOf x g)"
proof (induction f)
  case Nil
  then show ?case by simp
next
  case (Cons t f)
  obtain m ts where t: "t = Tree m ts" by (cases t)
  show ?case using Cons by (auto simp: t split: option.splits)
qed

lemma roots_cut: "root ` set (cutOut n f) = root ` set f - {n}"
  by (induction f rule: pre.induct) auto

lemma parentOf_cut:
  "leafy n f \<Longrightarrow> x \<noteq> n \<Longrightarrow> parentOf x (cutOut n f) = parentOf x f"
  by (induction f rule: pre.induct) (auto split: option.splits simp: roots_cut)

lemma roots_placeBefore: "root ` set (placeBefore r t ts) = insert (root t) (root ` set ts)"
  by (induction r t ts rule: placeBefore.induct) auto

lemma roots_insertInto: "root ` set (insertInto p r t f) = root ` set f"
  by (induction f rule: pre.induct) auto

lemma parentOf_placeBefore:
  "x \<noteq> n \<Longrightarrow> parentOf x (placeBefore r (Tree n []) ts) = parentOf x ts"
proof (induction r "Tree n []" ts rule: placeBefore.induct)
  case (1 ts)
  then show ?case by (simp add: parentOf_append split: option.splits)
next
  case (2 r)
  then show ?case by simp
next
  case (3 r u us)
  then show ?case by (cases u) (auto split: option.splits)
qed

lemma parentOf_insertInto:
  "x \<noteq> n \<Longrightarrow> parentOf x (insertInto p r (Tree n []) f) = parentOf x f"
proof (induction f rule: pre.induct)
  case 1
  then show ?case by simp
next
  case (2 m ts us)
  then show ?case
    by (cases "m = p")
       (auto simp: parentOf_placeBefore roots_placeBefore roots_insertInto split: option.splits)
qed

lemma parentOf_absent: "x \<notin> set (pre f) \<Longrightarrow> parentOf x f = None"
  using parentOf_subset by (cases "parentOf x f") auto

lemma roots_subset_pre': "root ` set f \<subseteq> set (pre f)"
  using roots_subset_pre [of f] by simp

lemma parentOf_inserted:
  "p \<in> set (pre f) \<Longrightarrow> n \<notin> set (pre f) \<Longrightarrow> parentOf n (insertInto p r (Tree n []) f) = Some p"
proof (induction f rule: pre.induct)
  case 1
  then show ?case by simp
next
  case (2 m ts us)
  have nr: "n \<notin> root ` set ts" using 2(4) roots_subset_pre' [of ts] by auto
  show ?case
  proof (cases "m = p")
    case True
    then show ?thesis by (simp add: roots_placeBefore)
  next
    case False
    show ?thesis
    proof (cases "p \<in> set (pre ts)")
      case True
      then show ?thesis using False 2 nr by (simp add: roots_insertInto)
    next
      case pf: False
      then have "parentOf n (insertInto p r (Tree n []) ts) = None"
        using 2(4) by (simp add: insertInto_absent parentOf_absent)
      then show ?thesis using False 2 nr pf by (simp add: roots_insertInto)
    qed
  qed
qed


lemma subtree_None_iff: "subtree x f = None \<longleftrightarrow> x \<notin> set (pre f)"
  by (induction f rule: pre.induct) (auto split: option.splits)

lemma subtree_root: "subtree x f = Some t \<Longrightarrow> root t = x"
  by (induction f rule: pre.induct) (auto split: option.splits if_splits)

lemma subtree_leafy: "leafy n f \<Longrightarrow> subtree n f = Some t \<Longrightarrow> t = Tree n []"
  by (induction f rule: pre.induct) (auto split: option.splits if_splits)

lemma subtree_append:
  "subtree x (f @ g) = (case subtree x f of Some t \<Rightarrow> Some t | None \<Rightarrow> subtree x g)"
proof (induction f)
  case Nil
  then show ?case by simp
next
  case (Cons t f)
  obtain m ts where t: "t = Tree m ts" by (cases t)
  show ?case using Cons by (auto simp: t split: option.splits)
qed

lemma descendants_Nil [simp]: "descendants x [] = []"
  by (simp add: descendants_def)

lemma descendants_Cons:
  "descendants x (Tree m ts # us) =
     (if m = x then pre ts else if x \<in> set (pre ts) then descendants x ts else descendants x us)"
  using subtree_None_iff [of x ts]
  by (auto simp: descendants_def split: option.splits)

lemma descendants_append:
  "descendants x (f @ g) = (if x \<in> set (pre f) then descendants x f else descendants x g)"
  using subtree_None_iff [of x f]
  by (auto simp: descendants_def subtree_append split: option.splits)

lemma descendants_subset: "set (descendants x f) \<subseteq> set (pre f)"
  by (induction f rule: pre.induct) (auto simp: descendants_Cons)

lemma descendants_absent: "x \<notin> set (pre f) \<Longrightarrow> descendants x f = []"
  using subtree_None_iff [of x f] by (simp add: descendants_def)

lemma in_pre_cut_leafy: "leafy n f \<Longrightarrow> x \<noteq> n \<Longrightarrow> x \<in> set (pre (cutOut n f)) \<longleftrightarrow> x \<in> set (pre f)"
  by (simp add: pre_cut_leafy)

lemma descendants_cut:
  "leafy n f \<Longrightarrow> x \<noteq> n \<Longrightarrow> descendants x (cutOut n f) = filter (\<lambda>y. y \<noteq> n) (descendants x f)"
  by (induction f rule: pre.induct)
     (auto simp: descendants_Cons pre_cut_leafy)

lemma in_pre_placeBefore:
  "x \<noteq> n \<Longrightarrow> x \<in> set (pre (placeBefore r (Tree n []) ts)) \<longleftrightarrow> x \<in> set (pre ts)"
  by (simp add: pre_placeBefore)

lemma in_pre_insertInto:
  "x \<noteq> n \<Longrightarrow> x \<in> set (pre (insertInto p r (Tree n []) f)) \<longleftrightarrow> x \<in> set (pre f)"
  by (simp add: set_pre_insertInto)

lemma descendants_placeBefore:
  "x \<noteq> n \<Longrightarrow> descendants x (placeBefore r (Tree n []) ts) = descendants x ts"
proof (induction r "Tree n []" ts rule: placeBefore.induct)
  case (1 ts)
  then show ?case by (simp add: descendants_append descendants_Cons descendants_absent)
next
  case (2 r)
  then show ?case by (simp add: descendants_Cons)
next
  case (3 r u us)
  then show ?case by (cases u) (auto simp: descendants_Cons in_pre_placeBefore)
qed

lemma descendants_insertInto:
  "x \<noteq> n \<Longrightarrow> filter (\<lambda>y. y \<noteq> n) (descendants x (insertInto p r (Tree n []) f)) =
     filter (\<lambda>y. y \<noteq> n) (descendants x f)"
  by (induction f rule: pre.induct)
     (auto simp: descendants_Cons in_pre_insertInto in_pre_placeBefore filter_pre_placeBefore
        filter_pre_insertInto descendants_placeBefore)

lemma leafy_cut: "leafy m f \<Longrightarrow> leafy m (cutOut n f)"
  by (induction f rule: pre.induct) auto

lemma leafy_placeBefore: "leafy m ts \<Longrightarrow> leafy m (placeBefore r (Tree n []) ts)"
proof (induction r "Tree n []" ts rule: placeBefore.induct)
  case (3 r u us)
  then show ?case by (cases u) auto
qed auto

lemma leafy_insertInto: "m \<noteq> p \<Longrightarrow> leafy m f \<Longrightarrow> leafy m (insertInto p r (Tree n []) f)"
  by (induction f rule: pre.induct) (auto simp: leafy_placeBefore)

lemma leafy_absent: "m \<notin> set (pre f) \<Longrightarrow> leafy m f"
  by (induction f rule: pre.induct) auto

lemma parent_not_leafy: "parentOf c f = Some p \<Longrightarrow> \<not> leafy p f"
  by (induction f rule: pre.induct) (auto split: option.splits if_splits)

lemma in_ancestorsOf_self: "x \<in> set (pre f) \<Longrightarrow> x \<in> set (ancestorsOf x f)"
  using ancestorsOf_hd [of x f] ancestorsOf_empty_iff [of x f]
  by (cases "ancestorsOf x f") auto

lemma clearKids_leafy: "leafy n f \<Longrightarrow> clearKids n f = f"
  by (induction f rule: pre.induct) auto

section \<open>Steps keep the page well formed and the host page as it is\<close>

lemma sameData_refl [simp]: "sameData e e"
  by (simp add: sameData_def)

lemma sameData_trans: "sameData a b \<Longrightarrow> sameData b c \<Longrightarrow> sameData a c"
  by (simp add: sameData_def)

lemma sameData_owned: "sameData e e' \<Longrightarrow> owned e' = owned e"
  by (simp add: sameData_def owned_def isToggle_def)

lemma sameData_selectable: "sameData e e' \<Longrightarrow> selectable e' = selectable e"
  by (auto simp: sameData_def selectable_def userRoleContainer_def threadRoot_def names_defs)

lemma filter_neq_mem:
  assumes "filter (\<lambda>x. x \<noteq> n) xs = filter (\<lambda>x. x \<noteq> n) ys" "x \<noteq> n"
  shows "x \<in> set xs \<longleftrightarrow> x \<in> set ys"
proof -
  have "x \<in> set (filter (\<lambda>x. x \<noteq> n) xs) \<longleftrightarrow> x \<in> set (filter (\<lambda>x. x \<noteq> n) ys)"
    using assms(1) by simp
  then show ?thesis using assms(2) by simp
qed

lemma leafEdit_refl: "leafEdit n f f"
  by (simp add: leafEdit_def)

lemma leafEdit_trans: "leafEdit n f g \<Longrightarrow> leafEdit n g h \<Longrightarrow> leafEdit n f h"
  by (simp add: leafEdit_def)

lemma leafEdit_cut: "leafy n f \<Longrightarrow> leafEdit n f (cutOut n f)"
  by (simp add: leafEdit_def pre_cut_leafy ancestorsOf_cut parentOf_cut descendants_cut)

lemma leafEdit_insertInto: "leafEdit n f (insertInto p r (Tree n []) f)"
  by (simp add: leafEdit_def filter_pre_insertInto ancestorsOf_insertInto parentOf_insertInto
      descendants_insertInto)

lemma leafEdit_snoc: "leafEdit n f (f @ [Tree n []])"
proof -
  have a: "ancestorsOf x (f @ [Tree n []]) = ancestorsOf x f" if "x \<noteq> n" for x
    using that by (simp add: ancestorsOf_append ancestorsOf_absent)
  have p: "parentOf x (f @ [Tree n []]) = parentOf x f" if "x \<noteq> n" for x
    using that by (simp add: parentOf_append split: option.splits)
  have d: "descendants x (f @ [Tree n []]) = descendants x f" if "x \<noteq> n" for x
    using that by (simp add: descendants_append descendants_Cons descendants_absent)
  show ?thesis unfolding leafEdit_def using a p d by simp
qed

lemma leafEdit_mem: "leafEdit n f g \<Longrightarrow> x \<noteq> n \<Longrightarrow> x \<in> set (pre g) \<longleftrightarrow> x \<in> set (pre f)"
  unfolding leafEdit_def using filter_neq_mem [of n "pre g" "pre f" x] by simp

lemma leafEdit_append:
  assumes "leafEdit n f f'" "leafEdit n g g'"
  shows "leafEdit n (f @ g) (f' @ g')"
proof -
  have m: "x \<in> set (pre f') \<longleftrightarrow> x \<in> set (pre f)" if "x \<noteq> n" for x
    using leafEdit_mem [OF assms(1) that] .
  have f: "filter (\<lambda>x. x \<noteq> n) (pre (f' @ g')) = filter (\<lambda>x. x \<noteq> n) (pre (f @ g))"
    using assms by (simp add: leafEdit_def)
  have a: "ancestorsOf x (f' @ g') = ancestorsOf x (f @ g)" if "x \<noteq> n" for x
    using assms that m [OF that] by (simp add: leafEdit_def ancestorsOf_append)
  have p: "parentOf x (f' @ g') = parentOf x (f @ g)" if "x \<noteq> n" for x
    using assms that by (simp add: leafEdit_def parentOf_append split: option.splits)
  have d: "filter (\<lambda>y. y \<noteq> n) (descendants x (f' @ g')) = filter (\<lambda>y. y \<noteq> n) (descendants x (f @ g))"
    if "x \<noteq> n" for x
    using assms that m [OF that] by (simp add: leafEdit_def descendants_append)
  show ?thesis unfolding leafEdit_def using f a p d by blast
qed


lemma filter_owned_neq:
  "owned (el n) \<Longrightarrow> filter (\<lambda>x. \<not> owned (el x)) (filter (\<lambda>x. x \<noteq> n) xs) = filter (\<lambda>x. \<not> owned (el x)) xs"
  by (induction xs) auto

lemma wellFormed_ids: "wellFormed s \<Longrightarrow> x \<in> set (pre (heap s)) \<Longrightarrow> x < nextId s"
  by (simp add: wellFormed_def)

lemma sameHost_refl [simp]: "sameHost s s"
  by (simp add: sameHost_def)

lemma sameHost_trans:
  assumes "wellFormed s" "sameHost s t" "sameHost t u"
  shows "sameHost s u"
proof -
  have n: "nextId s \<le> nextId u" using assms by (simp add: sameHost_def)
  have d: "sameData (elems s x) (elems u x)" if "x < nextId s" for x
  proof -
    have "sameData (elems s x) (elems t x)" using assms(2) that by (simp add: sameHost_def)
    moreover have "sameData (elems t x) (elems u x)" using assms(2,3) that by (simp add: sameHost_def)
    ultimately show ?thesis by (rule sameData_trans)
  qed
  have h: "hostNodes u = hostNodes s" using assms by (simp add: sameHost_def)
  have a: "x \<in> set (pre (heap u)) \<and> ancestorsOf x (heap u) = ancestorsOf x (heap s) \<and>
         parentOf x (heap u) = parentOf x (heap s)"
    if "x \<in> set (pre (heap s))" "\<not> owned (elems s x)" for x
  proof -
    have 1: "x \<in> set (pre (heap t)) \<and> ancestorsOf x (heap t) = ancestorsOf x (heap s) \<and>
         parentOf x (heap t) = parentOf x (heap s)" using assms(2) that by (simp add: sameHost_def)
    have "x < nextId s" using wellFormed_ids [OF assms(1) that(1)] .
    then have "sameData (elems s x) (elems t x)" using assms(2) by (simp add: sameHost_def)
    then have "\<not> owned (elems t x)" using that(2) sameData_owned by blast
    then show ?thesis using assms(3) 1 by (simp add: sameHost_def)
  qed
  show ?thesis unfolding sameHost_def using n d h a by blast
qed

text \<open>A step that writes data only.\<close>

lemma data_step:
  assumes "wellFormed s" "document t = document s" "detached t = detached s" "nextId t = nextId s"
    "\<forall>x. sameData (elems s x) (elems t x)"
  shows "wellFormed t \<and> sameHost s t"
proof -
  have o: "owned (elems t x) = owned (elems s x)" for x using assms(5) sameData_owned by blast
  have sel: "selectable (elems t x) = selectable (elems s x)" for x
    using assms(5) sameData_selectable by blast
  have tg: "tagName (elems t x) = tagName (elems s x)" for x using assms(5) by (simp add: sameData_def)
  have hp: "heap t = heap s" using assms by (simp add: heap_def)
  have ti: "isToggle (elems t x) = isToggle (elems s x) \<and> elemId (elems t x) = elemId (elems s x)"
    for x using assms(5) by (simp add: sameData_def isToggle_def)
  have "wellFormed t" using assms(1) unfolding wellFormed_def hp o sel using assms(2,4) tg ti
    by simp
  moreover have "sameHost s t" using assms by (simp add: sameHost_def hostNodes_def o hp)
  ultimately show ?thesis by simp
qed

text \<open>A step that creates an element of the extension.\<close>

lemma create_step:
  assumes "wellFormed s" "document t = document s" "detached t = detached s @ [Tree (nextId s) []]"
    "nextId t = Suc (nextId s)" "elems t = (elems s)(nextId s := e)" "owned e" "\<not> selectable e"
    "isToggle e \<longrightarrow> elemId e \<noteq> IDS_banner"
  shows "wellFormed t \<and> sameHost s t"
proof -
  let ?n = "nextId s"
  have fresh: "?n \<notin> set (pre (heap s))" using assms(1) by (auto simp: wellFormed_def)
  have hp: "heap t = heap s @ [Tree ?n []]" using assms by (simp add: heap_def)
  have el: "elems t x = elems s x" if "x \<noteq> ?n" for x using assms(5) that by simp
  have d: "distinct (pre (heap t))" using assms(1) fresh by (simp add: hp wellFormed_def)
  have i: "\<forall>x \<in> set (pre (heap t)). x < nextId t" using assms(1,4) by (auto simp: hp wellFormed_def)
  have l: "leafy x (heap t) \<and> \<not> selectable (elems t x)" if "owned (elems t x)" for x
  proof (cases "x = ?n")
    case True
    then show ?thesis using assms(5,7) fresh by (simp add: hp leafy_absent)
  next
    case False
    then show ?thesis using that assms(1) el [OF False] by (simp add: hp wellFormed_def)
  qed
  obtain r ts where r: "document s = [Tree r ts]" "tagName (elems s r) = ''html''" "\<not> owned (elems s r)"
    using assms(1) by (auto simp: wellFormed_def)
  have "r \<in> set (pre (heap s))" using r(1) by (simp add: heap_def)
  then have rn: "r \<noteq> ?n" using fresh by auto
  have x: "isToggle (elems t m) \<longrightarrow> elemId (elems t m) \<noteq> IDS_banner" for m
    using assms(1,5,8) by (cases "m = ?n") (simp_all add: wellFormed_def)
  have w: "wellFormed t" unfolding wellFormed_def using d i l x r rn el [OF rn] assms(2) by auto
  have hn: "hostNodes t = hostNodes s"
  proof -
    have "\<forall>x \<in> set (pre (document s)). x \<noteq> ?n" using fresh by (auto simp: heap_def)
    then have "filter (\<lambda>x. \<not> owned (elems t x)) (pre (document s)) =
        filter (\<lambda>x. \<not> owned (elems s x)) (pre (document s))"
      using el by (intro filter_cong) auto
    then show ?thesis by (simp add: hostNodes_def assms(2))
  qed
  have a: "x \<in> set (pre (heap t)) \<and> ancestorsOf x (heap t) = ancestorsOf x (heap s) \<and>
         parentOf x (heap t) = parentOf x (heap s)" if "x \<in> set (pre (heap s))" for x
    using that fresh
    by (auto simp: hp ancestorsOf_append parentOf_append split: option.splits)
  have sd: "sameData (elems s x) (elems t x)" if "x < nextId s" for x
    using that el [of x] by simp
  show ?thesis using w hn a sd assms(4) unfolding sameHost_def by simp
qed


lemma struct_sameHost:
  assumes "owned (elems s n)" "elems t = elems s" "nextId t = nextId s"
    "leafEdit n (document s) (document t)" "leafEdit n (detached s) (detached t)"
  shows "sameHost s t"
proof -
  have "filter (\<lambda>x. x \<noteq> n) (pre (document t)) = filter (\<lambda>x. x \<noteq> n) (pre (document s))"
    using assms(4) by (simp add: leafEdit_def)
  then have "filter (\<lambda>x. \<not> owned (elems s x)) (filter (\<lambda>x. x \<noteq> n) (pre (document t))) =
      filter (\<lambda>x. \<not> owned (elems s x)) (filter (\<lambda>x. x \<noteq> n) (pre (document s)))" by simp
  then have hn: "hostNodes t = hostNodes s"
    using filter_owned_neq [of "elems s" n, OF assms(1)] by (simp add: hostNodes_def assms(2))
  have le: "leafEdit n (heap s) (heap t)"
    unfolding heap_def using assms(4,5) by (rule leafEdit_append)
  have a: "x \<in> set (pre (heap t)) \<and> ancestorsOf x (heap t) = ancestorsOf x (heap s) \<and>
         parentOf x (heap t) = parentOf x (heap s)"
    if "x \<in> set (pre (heap s))" "\<not> owned (elems s x)" for x
  proof -
    have "x \<noteq> n" using that(2) assms(1) by auto
    then show ?thesis using le that(1) leafEdit_mem [OF le, of x] by (simp add: leafEdit_def)
  qed
  show ?thesis unfolding sameHost_def using hn a assms(2,3) by simp
qed

lemma owned_leaf:
  "wellFormed s \<Longrightarrow> owned (elems s n) \<Longrightarrow> leafy n (document s) \<and> leafy n (detached s)"
  by (simp add: wellFormed_def heap_def)

lemma move_step:
  assumes "wellFormed s" "owned (elems s n)" "\<not> owned (elems s p)" "p \<in> set (pre (heap s))"
    "subtree n (heap s) = Some tr"
  shows "wellFormed (s\<lparr>document := insertInto p r tr (cutOut n (document s)),
                       detached := insertInto p r tr (cutOut n (detached s))\<rparr>) \<and>
         sameHost s (s\<lparr>document := insertInto p r tr (cutOut n (document s)),
                       detached := insertInto p r tr (cutOut n (detached s))\<rparr>)"
    (is "wellFormed ?t \<and> sameHost s ?t")
proof -
  let ?D = "document s" and ?X = "detached s"
  let ?D' = "cutOut n ?D" and ?X' = "cutOut n ?X"
  have lf: "leafy n ?D" "leafy n ?X" using owned_leaf [OF assms(1,2)] by simp_all
  have tr: "tr = Tree n []" using assms(1,2,5) subtree_leafy [of n "heap s" tr]
    by (simp add: wellFormed_def)
  have nin: "n \<in> set (pre (heap s))" using assms(5) subtree_None_iff [of n "heap s"] by auto
  have np: "n \<noteq> p" using assms(2,3) by auto
  have eD: "leafEdit n ?D (document ?t)"
    using leafEdit_trans [OF leafEdit_cut [OF lf(1)] leafEdit_insertInto [of n ?D' p r]]
    by (simp add: tr)
  have eX: "leafEdit n ?X (detached ?t)"
    using leafEdit_trans [OF leafEdit_cut [OF lf(2)] leafEdit_insertInto [of n ?X' p r]]
    by (simp add: tr)
  have sh: "sameHost s ?t" by (rule struct_sameHost [OF assms(2) _ _ eD eX]) simp_all
  have dc: "distinct (pre (?D' @ ?X'))"
    using assms(1) distinct_pre_cut [of "heap s" n] by (simp add: wellFormed_def heap_def)
  have nn: "n \<notin> set (pre ?D')" "n \<notin> set (pre ?X')" by (simp_all add: pre_cut_notin)
  have pc: "p \<in> set (pre ?D') \<or> p \<in> set (pre ?X')"
    using assms(4) np lf by (auto simp: heap_def pre_cut_leafy)
  have d: "distinct (pre (heap ?t))"
  proof -
    from pc show ?thesis
    proof
      assume pd: "p \<in> set (pre ?D')"
      then have px: "p \<notin> set (pre ?X')" using dc by auto
      have "distinct (pre (insertInto p r tr ?D'))"
        using dc nn by (intro distinct_pre_insertInto) (auto simp: tr)
      then show ?thesis using dc nn px pd
        by (auto simp: heap_def insertInto_absent set_pre_insertInto tr)
    next
      assume px: "p \<in> set (pre ?X')"
      then have pd: "p \<notin> set (pre ?D')" using dc by auto
      have "distinct (pre (insertInto p r tr ?X'))"
        using dc nn by (intro distinct_pre_insertInto) (auto simp: tr)
      then show ?thesis using dc nn px pd
        by (auto simp: heap_def insertInto_absent set_pre_insertInto tr)
    qed
  qed
  have sub: "set (pre (heap ?t)) \<subseteq> set (pre (heap s))"
    using nin pre_cut_subset [of n ?D] pre_cut_subset [of n ?X]
    by (auto simp: heap_def set_pre_insertInto tr split: if_splits)
  have i: "\<forall>x \<in> set (pre (heap ?t)). x < nextId ?t"
    using sub assms(1) by (auto simp: wellFormed_def)
  have l: "leafy m (heap ?t) \<and> \<not> selectable (elems ?t m)" if "owned (elems ?t m)" for m
  proof -
    have o: "owned (elems s m)" using that by simp
    then have mp: "m \<noteq> p" using assms(3) by auto
    have "leafy m ?D \<and> leafy m ?X" using owned_leaf [OF assms(1) o] by simp
    then have "leafy m (insertInto p r (Tree n []) ?D') \<and> leafy m (insertInto p r (Tree n []) ?X')"
      using mp by (simp add: leafy_insertInto leafy_cut)
    then show ?thesis using assms(1) o by (simp add: heap_def tr wellFormed_def)
  qed
  obtain rt ts where rt: "?D = [Tree rt ts]" "tagName (elems s rt) = ''html''" "\<not> owned (elems s rt)"
    using assms(1) by (auto simp: wellFormed_def)
  have rn: "rt \<noteq> n" using rt(3) assms(2) by auto
  have "\<exists>ts'. document ?t = [Tree rt ts']" using rt(1) rn by simp
  have x: "\<forall>m. isToggle (elems ?t m) \<longrightarrow> elemId (elems ?t m) \<noteq> IDS_banner"
    using assms(1) by (simp add: wellFormed_def)
  have "\<exists>ts'. document ?t = [Tree rt ts']" using rt(1) rn by simp
  then have w: "wellFormed ?t" unfolding wellFormed_def using d i l x rt by auto
  show ?thesis using w sh by simp
qed

lemma remove_step:
  assumes "wellFormed s" "owned (elems s n)"
  shows "wellFormed (removeNode n s) \<and> sameHost s (removeNode n s)"
proof (cases "subtree n (heap s)")
  case None
  then show ?thesis using assms by (simp add: removeNode_def)
next
  case (Some tr)
  let ?D = "document s" and ?X = "detached s"
  let ?t = "s\<lparr>document := cutOut n ?D, detached := cutOut n ?X @ [Tree n []]\<rparr>"
  have lf: "leafy n ?D" "leafy n ?X" using owned_leaf [OF assms(1,2)] by simp_all
  have tr: "tr = Tree n []" using assms Some subtree_leafy [of n "heap s" tr]
    by (simp add: wellFormed_def)
  have t: "removeNode n s = ?t" using Some by (simp add: removeNode_def tr)
  have nin: "n \<in> set (pre (heap s))" using Some subtree_None_iff [of n "heap s"] by auto
  have eD: "leafEdit n ?D (document ?t)" using leafEdit_cut [OF lf(1)] by simp
  have eX: "leafEdit n ?X (detached ?t)"
    using leafEdit_trans [OF leafEdit_cut [OF lf(2)] leafEdit_snoc [of n "cutOut n ?X"]] by simp
  have sh: "sameHost s ?t" by (rule struct_sameHost [OF assms(2) _ _ eD eX]) simp_all
  have dc: "distinct (pre (cutOut n ?D @ cutOut n ?X))"
    using assms(1) distinct_pre_cut [of "heap s" n] by (simp add: wellFormed_def heap_def)
  have nn: "n \<notin> set (pre (cutOut n ?D))" "n \<notin> set (pre (cutOut n ?X))"
    by (simp_all add: pre_cut_notin)
  have d: "distinct (pre (heap ?t))" using dc nn by (simp add: heap_def)
  have sub: "set (pre (heap ?t)) \<subseteq> set (pre (heap s))"
    using nin pre_cut_subset [of n ?D] pre_cut_subset [of n ?X] by (auto simp: heap_def)
  have i: "\<forall>x \<in> set (pre (heap ?t)). x < nextId ?t"
    using sub assms(1) by (auto simp: wellFormed_def)
  have l: "leafy m (heap ?t) \<and> \<not> selectable (elems ?t m)" if "owned (elems ?t m)" for m
  proof -
    have o: "owned (elems s m)" using that by simp
    have "leafy m ?D \<and> leafy m ?X" using owned_leaf [OF assms(1) o] by simp
    then show ?thesis using assms(1) o by (simp add: heap_def leafy_cut wellFormed_def)
  qed
  obtain rt ts where rt: "?D = [Tree rt ts]" "tagName (elems s rt) = ''html''" "\<not> owned (elems s rt)"
    using assms(1) by (auto simp: wellFormed_def)
  have rn: "rt \<noteq> n" using rt(3) assms(2) by auto
  have "\<exists>ts'. document ?t = [Tree rt ts']" using rt(1) rn by simp
  have x: "\<forall>m. isToggle (elems ?t m) \<longrightarrow> elemId (elems ?t m) \<noteq> IDS_banner"
    using assms(1) by (simp add: wellFormed_def)
  have "\<exists>ts'. document ?t = [Tree rt ts']" using rt(1) rn by simp
  then have w: "wellFormed ?t" unfolding wellFormed_def using d i l x rt by auto
  show ?thesis using w sh t by simp
qed

lemma label_step:
  assumes "wellFormed s" "owned (elems s n)"
  shows "wellFormed (setTextContent n v s) \<and> sameHost s (setTextContent n v s)"
proof -
  have lf: "leafy n (document s)" "leafy n (detached s)" "leafy n (heap s)"
    using owned_leaf [OF assms] assms by (simp_all add: wellFormed_def)
  have old: "(case subtree n (heap s) of Some t \<Rightarrow> kids t | None \<Rightarrow> []) = []"
    using subtree_leafy [OF lf(3)] by (cases "subtree n (heap s)") auto
  have dd: "document (setTextContent n v s) = document s" "detached (setTextContent n v s) = detached s"
    using lf old by (simp_all add: setTextContent_def updateElem_def clearKids_leafy)
  show ?thesis
    by (rule data_step [OF assms(1) dd]) (auto simp: sameData_def)
qed

lemma preInsert_success:
  assumes "preInsert p n c s = (None, t)"
  shows "t = s \<and> subtree n (heap s) = None \<or>
     (\<exists>tr r. subtree n (heap s) = Some tr \<and>
        t = s\<lparr>document := insertInto p r tr (cutOut n (document s)),
               detached := insertInto p r tr (cutOut n (detached s))\<rparr>)"
  using assms by (auto simp: preInsert_def Let_def split: if_splits option.splits)

lemma preInsert_child:
  "preInsert p n (Some c) s = (None, t) \<Longrightarrow> parentOf c (heap s) = Some p"
  by (auto simp: preInsert_def Let_def split: if_splits option.splits)

lemma step_wellFormed:
  assumes "wellFormed s" "step q s t"
  shows "wellFormed t \<and> sameHost s t"
  using assms(2,1)
proof (induction rule: step.induct)
  case (collapse c q s n b)
  show ?case by (rule data_step [OF collapse(2)]) (use collapse(1) in \<open>auto simp: sameData_def names_defs\<close>)
next
  case (expanded q s n v)
  show ?case by (rule data_step [OF expanded]) (auto simp: sameData_def names_defs)
next
  case (label q s n v)
  then show ?case by (simp add: label_step touch_owned)
next
  case (toggle c a q s k)
  show ?case
    by (rule create_step [OF toggle(2), where e = "elems (newToggle c a k s) (nextId s)"])
       (use toggle(1) in \<open>auto simp: newToggle_def owned_def isToggle_def selectable_def blankElement_def
          userRoleContainer_def threadRoot_def names_defs\<close>)
next
  case (banner s)
  show ?case
    by (rule create_step [OF banner, where e = "elems (newBanner s) (nextId s)"])
       (auto simp: newBanner_def owned_def isToggle_def selectable_def blankElement_def
          userRoleContainer_def threadRoot_def names_defs)
next
  case (style q s)
  show ?case
    by (rule create_step [OF style, where e = "elems (newStyle s) (nextId s)"])
       (auto simp: newStyle_def owned_def isToggle_def selectable_def blankElement_def
          userRoleContainer_def threadRoot_def names_defs)
next
  case (move q s n p c t)
  have pc: "parentOf c (heap s) = Some p" using move(2) by (rule preInsert_child)
  then have pin: "p \<in> set (pre (heap s))" using parentOf_subset by blast
  have "\<not> leafy p (heap s)" using pc by (rule parent_not_leafy)
  then have np: "\<not> owned (elems s p)" using move(3) by (auto simp: wellFormed_def)
  from preInsert_success [OF move(2)] show ?case
  proof
    assume "t = s \<and> subtree n (heap s) = None"
    then show ?thesis using move(3) by simp
  next
    assume "\<exists>tr r. subtree n (heap s) = Some tr \<and>
        t = s\<lparr>document := insertInto p r tr (cutOut n (document s)),
               detached := insertInto p r tr (cutOut n (detached s))\<rparr>"
    then obtain tr r where "subtree n (heap s) = Some tr"
      "t = s\<lparr>document := insertInto p r tr (cutOut n (document s)),
               detached := insertInto p r tr (cutOut n (detached s))\<rparr>" by blast
    then show ?thesis using move_step [OF move(3) touch_owned [OF move(1)] np pin] by simp
  qed
next
  case (append q s n p t)
  from preInsert_success [OF append(4)] show ?case
  proof
    assume "t = s \<and> subtree n (heap s) = None"
    then show ?thesis using append(5) by simp
  next
    assume "\<exists>tr r. subtree n (heap s) = Some tr \<and>
        t = s\<lparr>document := insertInto p r tr (cutOut n (document s)),
               detached := insertInto p r tr (cutOut n (detached s))\<rparr>"
    then obtain tr r where *: "subtree n (heap s) = Some tr"
      "t = s\<lparr>document := insertInto p r tr (cutOut n (document s)),
               detached := insertInto p r tr (cutOut n (detached s))\<rparr>" by blast
    show ?thesis
      using move_step [OF append(5) touch_owned [OF append(1)] append(2) append(3) *(1)] * by simp
  qed
next
  case (remove q s n)
  then show ?case by (simp add: remove_step touch_owned)
next
  case (message s k q)
  show ?case by (rule data_step [OF message(2)]) simp_all
next
  case (code s k q)
  show ?case by (rule data_step [OF code(2)]) simp_all
next
  case (messageListener q s x)
  show ?case by (rule data_step [OF messageListener]) simp_all
next
  case (codeListener q s y)
  show ?case by (rule data_step [OF codeListener]) simp_all
qed

subsection \<open>The pass keeps the page well formed\<close>

lemma find_filter_hd: "find P xs = (case filter P xs of [] \<Rightarrow> None | x # _ \<Rightarrow> Some x)"
  by (induction xs) auto

lemma getElementById_bannerNodes:
  "getElementById IDS_banner s = (case bannerNodes s of [] \<Rightarrow> None | b # _ \<Rightarrow> Some b)"
  by (simp add: getElementById_def bannerNodes_def find_filter_hd)

lemma setTurnHidden_data [simp]:
  "document (setTurnHidden n b s) = document s" "detached (setTurnHidden n b s) = detached s"
  "nextId (setTurnHidden n b s) = nextId s" "messages (setTurnHidden n b s) = messages s"
  "codeBlocks (setTurnHidden n b s) = codeBlocks s" "storage (setTurnHidden n b s) = storage s"
  "sent (setTurnHidden n b s) = sent s" "contextValid (setTurnHidden n b s) = contextValid s"
  by (simp_all add: setTurnHidden_def Let_def)

lemma setTurnHidden_sameData: "sameData (elems s x) (elems (setTurnHidden n b s) x)"
  by (simp add: setTurnHidden_def Let_def sameData_def names_defs)

lemma pstep_wellFormed:
  assumes "wellFormed s" "pstep s t"
  shows "wellFormed t \<and> sameHost s t"
  using assms(2,1)
proof (induction rule: pstep.induct)
  case (base q s t)
  then show ?case by (simp add: step_wellFormed)
next
  case (hide s n b)
  show ?case
    by (rule data_step [OF hide]) (simp_all add: setTurnHidden_sameData)
next
  case (minimal s n b)
  show ?case
    by (rule data_step [OF minimal]) (auto simp: sameData_def names_defs)
qed

lemma psteps_wellFormed:
  assumes "pstep\<^sup>*\<^sup>* s t" "wellFormed s"
  shows "wellFormed t \<and> sameHost s t"
  using assms
proof (induction rule: rtranclp_induct)
  case base
  then show ?case by simp
next
  case (step y z)
  then have "wellFormed y" "sameHost s y" by simp_all
  moreover have "wellFormed z \<and> sameHost y z" using pstep_wellFormed [OF \<open>wellFormed y\<close> step(2)] .
  ultimately show ?case using sameHost_trans [OF step(4)] by blast
qed

lemma steps_psteps: "steps q s t \<Longrightarrow> pstep\<^sup>*\<^sup>* s t"
  by (induction rule: rtranclp_induct) (auto intro: pstep.base rtranclp.rtrancl_into_rtrancl)

lemma steps_wellFormed: "steps q s t \<Longrightarrow> wellFormed s \<Longrightarrow> wellFormed t \<and> sameHost s t"
  using psteps_wellFormed steps_psteps by blast

text \<open>Steps other than those of the banner code leave the banner alone.\<close>

lemma filter_banner_neq:
  "elemId (el n) \<noteq> IDS_banner \<Longrightarrow>
   filter (\<lambda>x. elemId (el x) = IDS_banner) (filter (\<lambda>x. x \<noteq> n) xs) =
   filter (\<lambda>x. elemId (el x) = IDS_banner) xs"
  by (induction xs) auto

lemma leafEdit_bannerNodes:
  assumes "leafEdit n (document s) (document t)" "elems t = elems s" "elemId (elems s n) \<noteq> IDS_banner"
  shows "bannerNodes t = bannerNodes s"
proof -
  have "filter (\<lambda>x. x \<noteq> n) (pre (document t)) = filter (\<lambda>x. x \<noteq> n) (pre (document s))"
    using assms(1) by (simp add: leafEdit_def)
  then have "filter (\<lambda>x. elemId (elems s x) = IDS_banner) (filter (\<lambda>x. x \<noteq> n) (pre (document t))) =
      filter (\<lambda>x. elemId (elems s x) = IDS_banner) (filter (\<lambda>x. x \<noteq> n) (pre (document s)))" by simp
  then show ?thesis using filter_banner_neq [of "elems s" n, OF assms(3)]
    by (simp add: bannerNodes_def assms(2))
qed

lemma ext_not_banner: "wellFormed s \<Longrightarrow> touch True (elems s n) \<Longrightarrow> elemId (elems s n) \<noteq> IDS_banner"
  by (auto simp: wellFormed_def touch_def ext_def names_defs)

lemma preInsert_leafEdit:
  assumes "wellFormed s" "owned (elems s n)" "preInsert p n c s = (None, t)"
  shows "leafEdit n (document s) (document t) \<and> leafEdit n (detached s) (detached t) \<and> elems t = elems s"
proof -
  have lf: "leafy n (document s)" "leafy n (detached s)" using owned_leaf [OF assms(1,2)] by simp_all
  from preInsert_success [OF assms(3)] show ?thesis
  proof
    assume "t = s \<and> subtree n (heap s) = None"
    then show ?thesis by (simp add: leafEdit_refl)
  next
    assume "\<exists>tr r. subtree n (heap s) = Some tr \<and>
        t = s\<lparr>document := insertInto p r tr (cutOut n (document s)),
               detached := insertInto p r tr (cutOut n (detached s))\<rparr>"
    then obtain tr r where *: "subtree n (heap s) = Some tr"
      "t = s\<lparr>document := insertInto p r tr (cutOut n (document s)),
               detached := insertInto p r tr (cutOut n (detached s))\<rparr>" by blast
    have tr: "tr = Tree n []" using assms(1,2) *(1) subtree_leafy [of n "heap s" tr]
      by (simp add: wellFormed_def)
    have eD: "leafEdit n (document s) (document t)"
      using leafEdit_trans [OF leafEdit_cut [OF lf(1)] leafEdit_insertInto [of n "cutOut n (document s)" p r]]
      by (simp add: tr *(2))
    have eX: "leafEdit n (detached s) (detached t)"
      using leafEdit_trans [OF leafEdit_cut [OF lf(2)] leafEdit_insertInto [of n "cutOut n (detached s)" p r]]
      by (simp add: tr *(2))
    show ?thesis using eD eX *(2) by simp
  qed
qed

lemma removeNode_leafEdit:
  assumes "wellFormed s" "owned (elems s n)"
  shows "leafEdit n (document s) (document (removeNode n s)) \<and>
         leafEdit n (detached s) (detached (removeNode n s))"
proof (cases "subtree n (heap s)")
  case None
  then show ?thesis by (simp add: removeNode_def leafEdit_refl)
next
  case (Some tr)
  have lf: "leafy n (document s)" "leafy n (detached s)" using owned_leaf [OF assms] by simp_all
  have tr: "tr = Tree n []" using assms Some subtree_leafy [of n "heap s" tr]
    by (simp add: wellFormed_def)
  have "leafEdit n (detached s) (cutOut n (detached s) @ [Tree n []])"
    using leafEdit_trans [OF leafEdit_cut [OF lf(2)] leafEdit_snoc [of n "cutOut n (detached s)"]] .
  then show ?thesis using Some leafEdit_cut [OF lf(1)] by (simp add: removeNode_def tr)
qed

lemma setTextContent_leaf:
  assumes "wellFormed s" "owned (elems s n)"
  shows "document (setTextContent n v s) = document s \<and> detached (setTextContent n v s) = detached s"
proof -
  have lf: "leafy n (document s)" "leafy n (detached s)" "leafy n (heap s)"
    using owned_leaf [OF assms] assms by (simp_all add: wellFormed_def)
  have old: "(case subtree n (heap s) of Some t \<Rightarrow> kids t | None \<Rightarrow> []) = []"
    using subtree_leafy [OF lf(3)] by (cases "subtree n (heap s)") auto
  show ?thesis using lf old by (simp add: setTextContent_def updateElem_def clearKids_leafy)
qed

lemma bannerNodes_data:
  "document t = document s \<Longrightarrow> \<forall>x \<in> set (pre (document s)). elemId (elems t x) = elemId (elems s x) \<Longrightarrow>
   bannerNodes t = bannerNodes s"
  unfolding bannerNodes_def by (auto intro: filter_cong)

lemma fresh_document: "wellFormed s \<Longrightarrow> nextId s \<notin> set (pre (document s))"
  by (auto simp: wellFormed_def heap_def)

lemma step_bannerNodes:
  assumes "step q s t" "q" "wellFormed s"
  shows "bannerNodes t = bannerNodes s"
  using assms
proof (induction rule: step.induct)
  case (collapse c q s n b)
  show ?case by (intro bannerNodes_data) simp_all
next
  case (expanded q s n v)
  show ?case by (intro bannerNodes_data) simp_all
next
  case (label q s n v)
  then show ?case using setTextContent_leaf [OF label(3) touch_owned [OF label(1)], of v]
    by (intro bannerNodes_data) simp_all
next
  case (toggle c a q s k)
  then show ?case using fresh_document [OF toggle(3)]
    by (intro bannerNodes_data) (auto simp: newToggle_def)
next
  case (style q s)
  then show ?case using fresh_document [OF style(2)]
    by (intro bannerNodes_data) (auto simp: newStyle_def)
next
  case (move q s n p c t)
  then show ?case
    using preInsert_leafEdit [OF move(4) touch_owned [OF move(1)] move(2)] ext_not_banner [of s n]
    by (intro leafEdit_bannerNodes [of n]) simp_all
next
  case (append q s n p t)
  then show ?case
    using preInsert_leafEdit [OF append(6) touch_owned [OF append(1)] append(4)] ext_not_banner [of s n]
    by (intro leafEdit_bannerNodes [of n]) simp_all
next
  case (remove q s n)
  then show ?case
    using removeNode_leafEdit [OF remove(3) touch_owned [OF remove(1)]] ext_not_banner [of s n]
    by (intro leafEdit_bannerNodes [of n]) simp_all
qed (simp_all add: bannerNodes_def)

lemma steps_bannerNodes:
  assumes "steps True s t" "wellFormed s"
  shows "bannerNodes t = bannerNodes s"
  using assms
proof (induction rule: rtranclp_induct)
  case base
  then show ?case by simp
next
  case (step y z)
  have "wellFormed y" using steps_wellFormed [OF step(1) step(4)] by simp
  then show ?case using step step_bannerNodes [OF step(2)] by simp
qed

subsection \<open>The turn locator sees the host page only\<close>


lemma find_filter_imp: "(\<And>x. P x \<Longrightarrow> Q x) \<Longrightarrow> find P (filter Q xs) = find P xs"
  by (induction xs) auto

lemma filter_filter_imp: "(\<And>x. x \<in> set xs \<Longrightarrow> P x \<Longrightarrow> Q x) \<Longrightarrow> filter P (filter Q xs) = filter P xs"
  by (induction xs) auto

lemma hostNodes_heap: "x \<in> set (hostNodes s) \<Longrightarrow> x \<in> set (pre (heap s)) \<and> \<not> owned (elems s x)"
  by (simp add: hostNodes_def heap_def)

lemma sameHost_data:
  "wellFormed s \<Longrightarrow> sameHost s t \<Longrightarrow> x \<in> set (pre (heap s)) \<Longrightarrow> sameData (elems s x) (elems t x)"
  using wellFormed_ids [of s x] by (simp add: sameHost_def)

text \<open>A selector for the host page sees the same elements after steps.\<close>

lemma querySelectorAll_sameHost:
  assumes "wellFormed s" "wellFormed t" "sameHost s t"
    "\<And>e. sel e \<Longrightarrow> selectable e" "\<And>e e'. sameData e e' \<Longrightarrow> sel e' = sel e"
  shows "querySelectorAll sel t = querySelectorAll sel s"
proof -
  have no: "sel (elems u x) \<Longrightarrow> \<not> owned (elems u x)" if "wellFormed u" for u x
    using that assms(4) by (auto simp: wellFormed_def)
  have a: "querySelectorAll sel u = filter (\<lambda>x. sel (elems u x)) (hostNodes u)" if "wellFormed u" for u
    unfolding querySelectorAll_def hostNodes_def using no [OF that]
    by (auto intro: filter_cong)
  have "filter (\<lambda>x. sel (elems t x)) (hostNodes s) = filter (\<lambda>x. sel (elems s x)) (hostNodes s)"
  proof (rule filter_cong [OF refl])
    fix x assume "x \<in> set (hostNodes s)"
    then have "sameData (elems s x) (elems t x)"
      using sameHost_data [OF assms(1,3)] hostNodes_heap by blast
    then show "sel (elems t x) = sel (elems s x)" by (rule assms(5))
  qed
  then show ?thesis using a [OF assms(1)] a [OF assms(2)] assms(3) by (simp add: sameHost_def)
qed

lemma querySelector_sameHost:
  assumes "wellFormed s" "wellFormed t" "sameHost s t"
    "\<And>e. sel e \<Longrightarrow> selectable e" "\<And>e e'. sameData e e' \<Longrightarrow> sel e' = sel e"
  shows "querySelector sel t = querySelector sel s"
proof -
  have "querySelector sel u = (case querySelectorAll sel u of [] \<Rightarrow> None | x # _ \<Rightarrow> Some x)" for u
    by (simp add: querySelector_def querySelectorAll_def find_filter_hd)
  then show ?thesis using querySelectorAll_sameHost [OF assms] by simp
qed

lemma primary_selectable: "conversationTurnsPrimary e \<Longrightarrow> selectable e"
  by (simp add: conversationTurnsPrimary_def selectable_def)

lemma fallback_selectable: "conversationTurnsFallback e \<Longrightarrow> selectable e"
  by (simp add: conversationTurnsFallback_def selectable_def)

lemma primary_sameData: "sameData e e' \<Longrightarrow> conversationTurnsPrimary e' = conversationTurnsPrimary e"
  by (simp add: conversationTurnsPrimary_def sameData_def names_defs)

lemma fallback_sameData: "sameData e e' \<Longrightarrow> conversationTurnsFallback e' = conversationTurnsFallback e"
  by (simp add: conversationTurnsFallback_def sameData_def names_defs)

lemma threadRoot_selectable: "threadRoot e \<Longrightarrow> selectable e"
  by (simp add: selectable_def)

lemma threadRoot_sameData: "sameData e e' \<Longrightarrow> threadRoot e' = threadRoot e"
  by (simp add: threadRoot_def sameData_def)

lemma querySelectorAll_document: "x \<in> set (querySelectorAll sel s) \<Longrightarrow> x \<in> set (pre (document s)) \<and> sel (elems s x)"
  by (simp add: querySelectorAll_def)

lemma getConversationTurns_sameHost:
  assumes "wellFormed s" "wellFormed t" "sameHost s t"
  shows "getConversationTurns t = getConversationTurns s"
proof -
  have p: "querySelectorAll conversationTurnsPrimary t = querySelectorAll conversationTurnsPrimary s"
    by (rule querySelectorAll_sameHost [OF assms primary_selectable primary_sameData])
  have f: "querySelectorAll conversationTurnsFallback t = querySelectorAll conversationTurnsFallback s"
    by (rule querySelectorAll_sameHost [OF assms fallback_selectable fallback_sameData])
  have r: "querySelector threadRoot t = querySelector threadRoot s"
    by (rule querySelector_sameHost [OF assms threadRoot_selectable threadRoot_sameData])
  define turns where "turns = (if length (querySelectorAll conversationTurnsPrimary s) = 0
     then querySelectorAll conversationTurnsFallback s else querySelectorAll conversationTurnsPrimary s)"
  have tin: "x \<in> set (pre (heap s)) \<and> \<not> owned (elems s x)" if "x \<in> set turns" for x
  proof -
    have "x \<in> set (pre (document s)) \<and> selectable (elems s x)"
      using that querySelectorAll_document [of x conversationTurnsPrimary s]
        querySelectorAll_document [of x conversationTurnsFallback s]
        primary_selectable fallback_selectable
      by (auto simp: turns_def split: if_splits)
    then show ?thesis using assms(1) by (auto simp: wellFormed_def heap_def)
  qed
  have c: "contains a x t = contains a x s" if "x \<in> set turns" for a x
    using tin [OF that] assms(3) by (simp add: contains_def sameHost_def)
  have h: "isHTMLElement (elems t x) = isHTMLElement (elems s x)" if "x \<in> set turns" for x
    using sameHost_data [OF assms(1,3)] tin [OF that] by (simp add: sameData_def)
  have c': "filter (\<lambda>element. contains a element t) turns = filter (\<lambda>element. contains a element s) turns" for a
    using c by (intro filter_cong) auto
  have h': "filter (\<lambda>element. isHTMLElement (elems t element)) (filter P turns) =
      filter (\<lambda>element. isHTMLElement (elems s element)) (filter P turns)" for P
    using h by (intro filter_cong) auto
  have h'': "filter (\<lambda>element. isHTMLElement (elems t element)) turns =
      filter (\<lambda>element. isHTMLElement (elems s element)) turns"
    using h by (intro filter_cong) auto
  show ?thesis
    unfolding getConversationTurns_def Let_def p f r turns_def [symmetric]
    by (cases "querySelector threadRoot s") (simp_all only: option.case c' h' h'')
qed

subsection \<open>Insertions of toggles do not throw on a well-formed page\<close>


lemma parentOf_in_kids:
  "x \<in> set (pre ts) \<Longrightarrow> x \<in> root ` set ts \<or> parentOf x ts \<noteq> None"
  by (induction ts rule: pre.induct) (auto split: option.splits)

lemma parentOf_descendant:
  "x \<in> set (descendants y f) \<Longrightarrow> parentOf x f \<noteq> None"
proof (induction f rule: pre.induct)
  case 1
  then show ?case by simp
next
  case (2 m ts us)
  show ?case
  proof (cases "m = y")
    case True
    then have "x \<in> set (pre ts)" using 2(3) by (simp add: descendants_Cons)
    then show ?thesis using parentOf_in_kids [of x ts] by (auto split: option.splits)
  next
    case False
    then show ?thesis using 2 by (auto simp: descendants_Cons split: option.splits if_splits)
  qed
qed

lemma ancestor_not_leafy: "a \<in> set (ancestorsOf x f) \<Longrightarrow> a = x \<or> \<not> leafy a f"
proof (induction f rule: pre.induct)
  case 1
  then show ?case by simp
next
  case (2 m ts us)
  show ?case
  proof (cases "m = x")
    case True
    then show ?thesis using 2(3) by simp
  next
    case False
    show ?thesis
    proof (cases "ancestorsOf x ts")
      case Nil
      then show ?thesis using False 2 by auto
    next
      case (Cons p ps)
      then have "x \<in> set (pre ts)" using ancestorsOf_empty_iff [of x ts] by auto
      then have "ts \<noteq> []" by auto
      then show ?thesis using False Cons 2 by auto
    qed
  qed
qed

lemma insert_valid:
  assumes "wellFormed s" "owned (elems s b)" "parentOf c (heap s) = Some p"
  shows "fst (preInsert p b (Some c) s) = None"
proof -
  have np: "\<not> leafy p (heap s)" using assms(3) by (rule parent_not_leafy)
  then have "\<not> owned (elems s p)" using assms(1) by (auto simp: wellFormed_def)
  then have bp: "b \<noteq> p" using assms(2) by auto
  have lb: "leafy b (heap s)" using assms(1,2) by (simp add: wellFormed_def)
  have "b \<notin> set (ancestorsOf p (heap s))" using ancestor_not_leafy [of b p "heap s"] bp lb by auto
  then show ?thesis using assms(3) by (simp add: preInsert_def Let_def split: option.splits)
qed

lemma wellFormed_then: "wellFormed s \<Longrightarrow> step q s t \<Longrightarrow> wellFormed t"
  using step_wellFormed by blast

lemma newToggle_heap: "heap (newToggle c a k s) = heap s @ [Tree (nextId s) []]"
  by (simp add: heap_def)

lemma parentOf_snoc_leaf: "parentOf x (f @ [Tree n []]) = parentOf x f"
  by (simp add: parentOf_append split: option.splits)

lemma ensureMessageToggle_ok:
  assumes "wellFormed t" "parentElement m t \<noteq> None"
  shows "fst (ensureMessageToggle turn m k t) = None"
proof -
  obtain host where host: "parentOf m (heap t) = Some host"
    using assms(2) by (auto simp: parentElement_def)
  define found where "found = findChildButtonByKey turn CLASSES_messageToggle ATTRS_messageKey k t"
  define b where "b = (case found of Some x \<Rightarrow> x | None \<Rightarrow> nextId t)"
  define t1 where "t1 = (case found of Some x \<Rightarrow> t | None \<Rightarrow>
      (newToggle CLASSES_messageToggle ATTRS_messageKey k t)\<lparr>messageListeners :=
         (messageListeners (newToggle CLASSES_messageToggle ATTRS_messageKey k t))(nextId t \<mapsto> (k, m))\<rparr>)"
  have w1: "wellFormed t1 \<and> owned (elems t1 b) \<and> parentOf m (heap t1) = Some host"
  proof (cases found)
    case None
    let ?u = "newToggle CLASSES_messageToggle ATTRS_messageKey k t"
    have "step True t ?u" by (rule step.toggle) simp
    then have wu: "wellFormed ?u" using wellFormed_then assms(1) by blast
    have "step True ?u t1" unfolding t1_def None by (simp add: step.messageListener)
    then have "wellFormed t1" using wellFormed_then wu by blast
    moreover have "owned (elems t1 b)"
      using touch_owned [OF touch_newToggle [where c = CLASSES_messageToggle and a = ATTRS_messageKey
            and k = k and s = t and q = True]] None
      by (simp add: t1_def b_def)
    moreover have "heap t1 = heap t @ [Tree (nextId t) []]" using None by (simp add: t1_def heap_def)
    ultimately show ?thesis using host by (simp add: parentOf_snoc_leaf)
  next
    case (Some x)
    then show ?thesis using find_buttonWithClass [of turn CLASSES_messageToggle ATTRS_messageKey k t x]
        assms(1) host
      by (simp add: t1_def b_def found_def owned_def isToggle_def buttonWithClass_def)
  qed
  have "fst (preInsert host b (Some m) t1) = None" using insert_valid w1 by blast
  then have "fst (if parentElement b t1 \<noteq> Some host \<or> nextSibling b t1 \<noteq> Some m
      then insertBefore host b m t1 else (None, t1)) = None"
    by (simp add: insertBefore_def)
  then have "\<exists>t2. (if parentElement b t1 \<noteq> Some host \<or> nextSibling b t1 \<noteq> Some m
      then insertBefore host b m t1 else (None, t1)) = (None, t2)"
    by (cases "(if parentElement b t1 \<noteq> Some host \<or> nextSibling b t1 \<noteq> Some m
      then insertBefore host b m t1 else (None, t1))") simp
  then obtain t2 where ins: "(if parentElement b t1 \<noteq> Some host \<or> nextSibling b t1 \<noteq> Some m
      then insertBefore host b m t1 else (None, t1)) = (None, t2)" ..
  have h: "(case parentElement m t of Some p \<Rightarrow> p | None \<Rightarrow> turn) = host"
    using host by (simp add: parentElement_def)
  show ?thesis
    unfolding ensureMessageToggle_unfold Let_def found_def [symmetric] b_def [symmetric]
      t1_def [symmetric] h ins
    by simp
qed

lemma ensureCodeToggle_ok:
  assumes "wellFormed t"
  shows "fst (ensureCodeToggle p k t) = None"
proof (cases "parentElement p t")
  case None
  then show ?thesis by (simp add: ensureCodeToggle_unfold)
next
  case (Some host)
  then have host: "parentOf p (heap t) = Some host" by (simp add: parentElement_def)
  define found where "found = findChildButtonByKey host CLASSES_codeToggle ATTRS_codeKey k t"
  define b where "b = (case found of Some x \<Rightarrow> x | None \<Rightarrow> nextId t)"
  define t1 where "t1 = (case found of Some x \<Rightarrow> t | None \<Rightarrow>
      (newToggle CLASSES_codeToggle ATTRS_codeKey k t)\<lparr>codeListeners :=
         (codeListeners (newToggle CLASSES_codeToggle ATTRS_codeKey k t))(nextId t \<mapsto> (k, p))\<rparr>)"
  have w1: "wellFormed t1 \<and> owned (elems t1 b) \<and> parentOf p (heap t1) = Some host"
  proof (cases found)
    case None
    let ?u = "newToggle CLASSES_codeToggle ATTRS_codeKey k t"
    have "step True t ?u" by (rule step.toggle) simp
    then have wu: "wellFormed ?u" using wellFormed_then assms(1) by blast
    have "step True ?u t1" unfolding t1_def None by (simp add: step.codeListener)
    then have "wellFormed t1" using wellFormed_then wu by blast
    moreover have "owned (elems t1 b)"
      using touch_owned [OF touch_newToggle [where c = CLASSES_codeToggle and a = ATTRS_codeKey
            and k = k and s = t and q = True]] None
      by (simp add: t1_def b_def)
    moreover have "heap t1 = heap t @ [Tree (nextId t) []]" using None by (simp add: t1_def heap_def)
    ultimately show ?thesis using host by (simp add: parentOf_snoc_leaf)
  next
    case (Some x)
    then show ?thesis using find_buttonWithClass [of host CLASSES_codeToggle ATTRS_codeKey k t x]
        assms(1) host
      by (simp add: t1_def b_def found_def owned_def isToggle_def buttonWithClass_def)
  qed
  have "fst (preInsert host b (Some p) t1) = None" using insert_valid w1 by blast
  then have "fst (if parentElement b t1 \<noteq> Some host \<or> nextSibling b t1 \<noteq> Some p
      then insertBefore host b p t1 else (None, t1)) = None"
    by (simp add: insertBefore_def)
  then have "\<exists>t2. (if parentElement b t1 \<noteq> Some host \<or> nextSibling b t1 \<noteq> Some p
      then insertBefore host b p t1 else (None, t1)) = (None, t2)"
    by (cases "(if parentElement b t1 \<noteq> Some host \<or> nextSibling b t1 \<noteq> Some p
      then insertBefore host b p t1 else (None, t1))") simp
  then obtain t2 where ins: "(if parentElement b t1 \<noteq> Some host \<or> nextSibling b t1 \<noteq> Some p
      then insertBefore host b p t1 else (None, t1)) = (None, t2)" ..
  show ?thesis
    unfolding ensureCodeToggle_unfold Let_def Some option.case found_def [symmetric] b_def [symmetric]
      t1_def [symmetric] ins
    by simp
qed

subsection \<open>The loops of the pass on a well-formed page\<close>


lemma findUserMessageNode_parent:
  "findUserMessageNode turn t = Some m \<Longrightarrow> parentElement m t \<noteq> None"
proof -
  assume "findUserMessageNode turn t = Some m"
  then have "querySelectorIn turn userRoleContainer t = Some m"
    by (auto simp: findUserMessageNode_def asHTMLElement_def split: option.splits if_splits)
  then have "m \<in> set (descendants turn (heap t))"
    unfolding querySelectorIn_def by (auto dest: find_SomeD)
  then show ?thesis unfolding parentElement_def by (rule parentOf_descendant)
qed

lemma snd_wellFormed: "steps q t (snd r) \<Longrightarrow> wellFormed t \<Longrightarrow> wellFormed (snd r)"
  using steps_wellFormed by blast

lemma messageTurnLoop_ok:
  "wellFormed t \<Longrightarrow> fst (messageTurnLoop turns i t) = None"
proof (induction turns arbitrary: i t)
  case Nil
  then show ?case by simp
next
  case (Cons turn rest)
  show ?case
  proof (cases "findUserMessageNode turn t")
    case None
    then show ?thesis using Cons by simp
  next
    case (Some m)
    let ?k = "getTurnKey turn i t @ ''::user-message''"
    obtain r t1 where e: "ensureMessageToggle turn m ?k t = (r, t1)" by fastforce
    have r: "r = None"
      using ensureMessageToggle_ok [OF Cons.prems findUserMessageNode_parent [OF Some], of turn ?k] e
      by simp
    have "steps True t t1" using steps_ensureMessageToggle [of True t t turn m ?k] e by simp
    then have "wellFormed t1" using steps_wellFormed Cons.prems by blast
    then show ?thesis using Some e r Cons.IH by simp
  qed
qed

lemma codeBlockLoop_ok:
  "wellFormed t \<Longrightarrow> fst (codeBlockLoop key ps i t) = None"
proof (induction ps arbitrary: i t)
  case Nil
  then show ?case by simp
next
  case (Cons p rest)
  show ?case
  proof (cases "isHTMLElement (elems t p)")
    case False
    then show ?thesis using Cons by simp
  next
    case True
    let ?k = "key @ ''::code-block:'' @ numberToString (int i)"
    obtain r t1 where e: "ensureCodeToggle p ?k t = (r, t1)" by fastforce
    have r: "r = None" using ensureCodeToggle_ok [OF Cons.prems, of p ?k] e by simp
    have "steps True t t1" using steps_ensureCodeToggle [of True t t p ?k] e by simp
    then have "wellFormed t1" using steps_wellFormed Cons.prems by blast
    then show ?thesis using True e r Cons.IH by simp
  qed
qed

lemma codeTurnLoop_ok:
  "wellFormed t \<Longrightarrow> fst (codeTurnLoop turns i t) = None"
proof (induction turns arbitrary: i t)
  case Nil
  then show ?case by simp
next
  case (Cons turn rest)
  obtain r t1 where e: "codeBlockLoop (getTurnKey turn i t) (querySelectorAllIn turn codeBlocksSel t) 0 t = (r, t1)"
    by fastforce
  have r: "r = None" using codeBlockLoop_ok [OF Cons.prems] e by (metis fst_conv)
  have "steps True t t1" using steps_codeBlockLoop [of True t t] e by (metis snd_conv rtranclp.rtrancl_refl)
  then have "wellFormed t1" using steps_wellFormed Cons.prems by blast
  then show ?case using e r Cons.IH by simp
qed

lemma applyCollapsibleFeatures_ok:
  assumes "wellFormed t"
  shows "fst (applyCollapsibleFeatures turns settings t) = None"
proof -
  obtain r t1 where e: "applyMessageCollapsers turns (collapseOwnMessages settings) t = (r, t1)"
    by fastforce
  have r: "r = None" using e messageTurnLoop_ok [OF assms, of turns 0]
    by (auto simp: applyMessageCollapsers_def split: if_splits)
  have "steps True t t1" using steps_applyMessageCollapsers [of True t t] e
    by (metis snd_conv rtranclp.rtrancl_refl)
  then have w1: "wellFormed t1" using steps_wellFormed assms by blast
  have "fst (applyCodeCollapsers turns (collapseCodeBlocks settings) t1) = None"
    using codeTurnLoop_ok [OF w1] by (simp add: applyCodeCollapsers_def)
  then show ?thesis using e r by (simp add: applyCollapsibleFeatures_def)
qed

text \<open>The style tag.\<close>

lemma ensureStyleTag_unfold:
  "ensureStyleTag s =
     (if getElementById IDS_styleTag s \<noteq> None then (None, s)
      else (case documentElement (newStyle s) of
              None \<Rightarrow> (Some TypeError, newStyle s)
            | Some r \<Rightarrow> preInsert r (nextId s) None (newStyle s)))"
  by (simp add: ensureStyleTag_def newStyle_def createElement_def appendChild_def Let_def
      split: option.splits)

lemma newStyle_data [simp]:
  "nextId (newStyle s) = Suc (nextId s)" "messages (newStyle s) = messages s"
  "codeBlocks (newStyle s) = codeBlocks s" "storage (newStyle s) = storage s"
  "sent (newStyle s) = sent s" "contextValid (newStyle s) = contextValid s"
  "document (newStyle s) = document s"
  "detached (newStyle s) = detached s @ [Tree (nextId s) []]"
  by (simp_all add: newStyle_def)

lemma touch_newStyle: "touch q (elems (newStyle s) (nextId s))"
  by (simp add: newStyle_def touch_def ext_def)

lemma wellFormed_root:
  "wellFormed s \<Longrightarrow> \<exists>r ts. document s = [Tree r ts] \<and> tagName (elems s r) = ''html'' \<and>
     \<not> owned (elems s r) \<and> documentElement s = Some r"
  by (auto simp: wellFormed_def documentElement_def)

lemma ensureStyleTag_ok:
  assumes "wellFormed s"
  shows "fst (ensureStyleTag s) = None \<and> steps True s (snd (ensureStyleTag s))"
proof (cases "getElementById IDS_styleTag s")
  case (Some x)
  then show ?thesis by (simp add: ensureStyleTag_unfold)
next
  case None
  let ?u = "newStyle s"
  have su: "step True s ?u" by (rule step.style)
  have wu: "wellFormed ?u" using wellFormed_then [OF assms su] .
  obtain r ts where r: "document ?u = [Tree r ts]" "\<not> owned (elems ?u r)" "documentElement ?u = Some r"
    using wellFormed_root [OF wu] by blast
  have rin: "r \<in> set (pre (heap ?u))" using r(1) by (simp add: heap_def)
  have anc: "ancestorsOf r (heap ?u) = [r]" using r(1) by (simp add: heap_def)
  have "nextId s \<noteq> r" using r(2) touch_owned [OF touch_newStyle [of True s]] by auto
  then have ok: "fst (preInsert r (nextId s) None ?u) = None"
    using anc by (simp add: preInsert_def Let_def split: option.splits)
  obtain t where t: "preInsert r (nextId s) None ?u = (None, t)"
    using ok by (cases "preInsert r (nextId s) None ?u") simp
  have "step True ?u t" using step.append [OF touch_newStyle r(2) rin t] .
  then have "steps True s t" using su by (meson rtranclp.simps)
  then show ?thesis using None r(3) t by (simp add: ensureStyleTag_unfold)
qed

lemma applyMinimalUi_ok:
  assumes "wellFormed s"
  shows "\<exists>r. applyMinimalUi b s = (None, classToggle r CLASSES_minimalUi b s)"
  using wellFormed_root [OF assms] by (auto simp: applyMinimalUi_def)

lemma psteps_hideLoop: "pstep\<^sup>*\<^sup>* s (hideLoop turns i h s)"
proof (induction turns arbitrary: i s)
  case Nil
  then show ?case by simp
next
  case (Cons turn rest)
  have "pstep s (setTurnHidden turn (int i < h) s)" by (rule pstep.hide)
  then show ?case using Cons [of "setTurnHidden turn (int i < h) s" "Suc i"]
    by (simp add: converse_rtranclp_into_rtranclp)
qed

subsection \<open>Hidden markers and the banner\<close>

lemma hideLoop_data [simp]:
  "document (hideLoop turns i h s) = document s" "detached (hideLoop turns i h s) = detached s"
  "nextId (hideLoop turns i h s) = nextId s" "messages (hideLoop turns i h s) = messages s"
  "codeBlocks (hideLoop turns i h s) = codeBlocks s" "storage (hideLoop turns i h s) = storage s"
  "sent (hideLoop turns i h s) = sent s" "contextValid (hideLoop turns i h s) = contextValid s"
  by (induction turns arbitrary: i s) simp_all

lemma hideLoop_other: "n \<notin> set turns \<Longrightarrow> elems (hideLoop turns i h s) n = elems s n"
  by (induction turns arbitrary: i s) (simp_all add: setTurnHidden_def Let_def)

lemma hideLoop_hidden:
  "distinct turns \<Longrightarrow> j < length turns \<Longrightarrow>
   hiddenOf (elems (hideLoop turns i h s) (turns ! j)) =
     (int (i + j) < h, if int (i + j) < h then Some ''1'' else None)"
proof (induction turns arbitrary: i j s)
  case Nil
  then show ?case by simp
next
  case (Cons turn rest)
  show ?case
  proof (cases j)
    case 0
    have "elems (hideLoop rest (Suc i) h (setTurnHidden turn (int i < h) s)) turn =
        elems (setTurnHidden turn (int i < h) s) turn"
      using Cons(2) by (intro hideLoop_other) simp
    then show ?thesis using 0 by (simp add: hiddenOf_def setTurnHidden_def Let_def)
  next
    case (Suc j')
    then show ?thesis using Cons(1) [of j' "Suc i" "setTurnHidden turn (int i < h) s"] Cons(2,3)
      by simp
  qed
qed

lemma elemId_hideLoop: "elemId (elems (hideLoop turns i h s) n) = elemId (elems s n)"
  by (induction turns arbitrary: i s) (simp_all add: setTurnHidden_def Let_def)

lemma bannerNodes_hideLoop: "bannerNodes (hideLoop turns i h s) = bannerNodes s"
  by (simp add: bannerNodes_def elemId_hideLoop)

lemma bannerNodes_classToggle: "bannerNodes (classToggle n c b s) = bannerNodes s"
  by (intro bannerNodes_data) simp_all

text \<open>Removal of the banner.\<close>

lemma removeBanner_result:
  assumes "wellFormed s"
  shows "bannerNodes (removeBanner s) = tl (bannerNodes s)"
proof (cases "bannerNodes s")
  case Nil
  then show ?thesis by (simp add: removeBanner_def getElementById_bannerNodes)
next
  case (Cons b bs)
  then have g: "getElementById IDS_banner s = Some b" by (simp add: getElementById_bannerNodes)
  then have id: "elemId (elems s b) = IDS_banner" using getElementById_elemId by blast
  then have o: "owned (elems s b)" by (simp add: owned_def)
  have lf: "leafy b (document s)" using owned_leaf [OF assms o] by simp
  have d: "distinct (pre (document s))" using assms by (simp add: wellFormed_def heap_def)
  then have db: "distinct (bannerNodes s)" by (simp add: bannerNodes_def)
  have "b \<in> set (pre (heap s))" using getElementById_elemId [OF g] by (simp add: heap_def)
  then obtain tr where "subtree b (heap s) = Some tr"
    using subtree_None_iff [of b "heap s"] by (cases "subtree b (heap s)") auto
  then have "pre (document (removeNode b s)) = filter (\<lambda>x. x \<noteq> b) (pre (document s))"
    using lf by (simp add: removeNode_def pre_cut_leafy)
  then have "bannerNodes (removeNode b s) = filter (\<lambda>x. x \<noteq> b) (bannerNodes s)"
    by (simp add: bannerNodes_def conj_commute)
  also have "\<dots> = bs" using db Cons by (auto simp: filter_id_conv)
  finally show ?thesis using g Cons by (simp add: removeBanner_def)
qed

lemma removeBanner_none:
  "wellFormed s \<Longrightarrow> singleBanner s \<Longrightarrow> getElementById IDS_banner (removeBanner s) = None \<and>
     singleBanner (removeBanner s)"
  using removeBanner_result [of s]
  by (cases "bannerNodes s") (simp_all add: getElementById_bannerNodes singleBanner_def)

lemma filter_single:
  "distinct xs \<Longrightarrow> n \<in> set xs \<Longrightarrow> (\<And>x. x \<in> set xs \<Longrightarrow> P x \<longleftrightarrow> x = n) \<Longrightarrow> filter P xs = [n]"
proof (induction xs)
  case Nil
  then show ?case by simp
next
  case (Cons x xs)
  show ?case
  proof (cases "x = n")
    case True
    then have "filter P xs = []" using Cons(2,4) by (auto simp: filter_empty_conv)
    then show ?thesis using True Cons(4) by simp
  next
    case False
    then show ?thesis using Cons by auto
  qed
qed

lemma parentOf_document:
  assumes "wellFormed s" "x \<in> set (pre (document s))" "tagName (elems s x) \<noteq> ''html''"
  shows "\<exists>p. parentOf x (heap s) = Some p \<and> p \<in> set (pre (document s))"
proof -
  obtain r ts where r: "document s = [Tree r ts]" "tagName (elems s r) = ''html''"
    using assms(1) by (auto simp: wellFormed_def)
  have "x \<notin> root ` set (document s)" using r assms(3) by auto
  then obtain p where p: "parentOf x (document s) = Some p"
    using parentOf_in_kids [OF assms(2)] by auto
  then show ?thesis using parentOf_subset [OF p] by (simp add: heap_def parentOf_append)
qed

lemma updateBanner_shown:
  assumes "wellFormed t" "turns \<noteq> []" "hd turns \<in> set (pre (document t))"
    "tagName (elems t (hd turns)) \<noteq> ''html''" "0 < h"
  shows "fst (updateBanner h tot keep turns t) = None \<and>
    (\<exists>b. bannerNodes (snd (updateBanner h tot keep turns t)) = (if bannerNodes t = [] then [b] else bannerNodes t) \<and>
         getElementById IDS_banner (snd (updateBanner h tot keep turns t)) = Some b \<and>
         textContent (elems (snd (updateBanner h tot keep turns t)) b) = bannerText h tot keep)"
proof -
  obtain host where host: "parentOf (hd turns) (heap t) = Some host" "host \<in> set (pre (document t))"
    using parentOf_document [OF assms(1,3,4)] by blast
  then have gh: "getBannerHost turns t = Some host" using assms(2)
    by (simp add: getBannerHost_def parentElement_def)
  show ?thesis
  proof (cases "getElementById IDS_banner t")
    case (Some b)
    then have id: "elemId (elems t b) = IDS_banner" using getElementById_elemId by blast
    then have o: "owned (elems t b)" by (simp add: owned_def)
    let ?t' = "setTextContent b (bannerText h tot keep) t"
    have doc: "document ?t' = document t" using setTextContent_leaf [OF assms(1) o] by simp
    have bn: "bannerNodes ?t' = bannerNodes t" by (intro bannerNodes_data) (simp_all add: doc)
    have ne: "bannerNodes t \<noteq> []" using Some by (auto simp: getElementById_bannerNodes)
    have "getElementById IDS_banner ?t' = Some b"
      using Some bn by (simp add: getElementById_bannerNodes)
    then show ?thesis using Some gh assms(5) bn ne by (simp add: updateBanner_unfold)
  next
    case None
    then have bn0: "bannerNodes t = []"
      by (auto simp: getElementById_bannerNodes split: list.splits)
    let ?n = "nextId t"
    let ?u = "newBanner t"
    have su: "step False t ?u" by (rule step.banner)
    have wu: "wellFormed ?u" using wellFormed_then [OF assms(1) su] .
    have ou: "owned (elems ?u ?n)" using touch_owned [OF touch_newBanner] .
    have "heap ?u = heap t @ [Tree ?n []]" by (simp add: heap_def)
    then have pu: "parentOf (hd turns) (heap ?u) = Some host"
      using host by (simp add: parentOf_snoc_leaf)
    have ok: "fst (preInsert host ?n (Some (hd turns)) ?u) = None"
      using insert_valid [OF wu ou pu] .
    then obtain t5 where t5: "preInsert host ?n (Some (hd turns)) ?u = (None, t5)"
      by (cases "preInsert host ?n (Some (hd turns)) ?u") simp
    have s5: "step False ?u t5" using step.move [OF touch_newBanner t5] .
    have w5: "wellFormed t5" using wellFormed_then [OF wu s5] .
    have fresh: "?n \<notin> set (pre (document t))" using fresh_document [OF assms(1)] .
    have fh: "?n \<notin> set (pre (heap t))" using assms(1) by (auto simp: wellFormed_def)
    have "heap ?u = heap t @ [Tree ?n []]" by (simp add: heap_def)
    then have sub: "subtree ?n (heap ?u) = Some (Tree ?n [])"
      using fh subtree_None_iff [of ?n "heap t"] by (simp add: subtree_append)
    have e5: "elems t5 = elems ?u" using preInsert_data [OF t5] by simp
    have d5: "document t5 = insertInto host (Some (hd turns)) (Tree ?n []) (document t)"
    proof -
      have "hd turns \<noteq> ?n" using assms(3) fresh by auto
      then show ?thesis using t5 sub fresh ok
        by (auto simp: preInsert_def Let_def cut_absent split: if_splits option.splits)
    qed
    have nin: "?n \<in> set (pre (document t5))" using host(2) by (simp add: d5 set_pre_insertInto)
    have dd: "distinct (pre (document t5))" using w5 by (simp add: wellFormed_def heap_def)
    have others: "x \<in> set (pre (document t)) \<Longrightarrow> elemId (elems t x) \<noteq> IDS_banner" for x
      using bn0 by (auto simp: bannerNodes_def filter_empty_conv)
    have idn: "elemId (elems ?u ?n) = IDS_banner" by (simp add: newBanner_def blankElement_def)
    have eo: "x \<noteq> ?n \<Longrightarrow> elems ?u x = elems t x" for x by (simp add: newBanner_def)
    have b5: "bannerNodes t5 = [?n]"
      unfolding bannerNodes_def
    proof (rule filter_single [OF dd nin])
      fix x assume "x \<in> set (pre (document t5))"
      then have "x = ?n \<or> x \<in> set (pre (document t))"
        by (auto simp: d5 set_pre_insertInto split: if_splits)
      then show "(elemId (elems t5 x) = IDS_banner) = (x = ?n)"
        using others [of x] idn eo [of x] e5 by (cases "x = ?n") auto
    qed
    let ?t' = "setTextContent ?n (bannerText h tot keep) t5"
    have o5: "owned (elems t5 ?n)" using ou e5 by simp
    have doc: "document ?t' = document t5" using setTextContent_leaf [OF w5 o5] by simp
    have bn: "bannerNodes ?t' = [?n]" using b5
      by (simp add: bannerNodes_data [of ?t' t5] doc)
    then have "getElementById IDS_banner ?t' = Some ?n" by (simp add: getElementById_bannerNodes)
    then show ?thesis using None gh assms(2,5) t5 bn bn0 by (simp add: updateBanner_unfold)
  qed
qed

subsection \<open>The stages of the pass\<close>


lemma loadSettings_steps:
  "steps q s t \<Longrightarrow> loadSettings t = loadSettings s"
  using steps_maps [of q s t] by (simp add: loadSettings_def stored_def)

lemma loadSettings_range: "loadSettings s = Inr settings \<Longrightarrow> 1 \<le> keepLastN settings \<and> keepLastN settings \<le> 500"
  using clampKeepLastN_range by (auto simp: loadSettings_def split: if_splits)

lemma turns_document:
  "x \<in> set (getConversationTurns s) \<Longrightarrow> x \<in> set (pre (document s)) \<and> tagName (elems s x) = ''article''"
  by (auto simp: getConversationTurns_def Let_def querySelectorAll_def conversationTurnsPrimary_def
      conversationTurnsFallback_def split: option.splits if_splits)

lemma distinct_turns: "wellFormed s \<Longrightarrow> distinct (getConversationTurns s)"
  by (auto simp: getConversationTurns_def Let_def querySelectorAll_def wellFormed_def heap_def
      split: option.splits)

lemma psteps_trans: "pstep\<^sup>*\<^sup>* a b \<Longrightarrow> pstep\<^sup>*\<^sup>* b c \<Longrightarrow> pstep\<^sup>*\<^sup>* a c"
  by simp

text \<open>The pass on a well-formed page, stage by stage.\<close>

lemma applyTrimming_stages:
  assumes "wellFormed s" "loadSettings s = Inr settings"
  shows "\<exists>r s1 s2. 
     ensureStyleTag s = (None, s1) \<and> steps True s s1 \<and> documentElement s1 = Some r \<and>
     s2 = classToggle r CLASSES_minimalUi (minimalUi settings) s1 \<and>
     getConversationTurns s1 = getConversationTurns s \<and>
     (if getConversationTurns s = []
      then applyTrimming s = (Inr (trimResult 0 0 (keepLastN settings)), removeBanner s2)
      else (\<exists>s3 s4 s5.
         s3 = hideLoop (getConversationTurns s) 0
                (max 0 (int (length (getConversationTurns s)) - keepLastN settings)) s2 \<and>
         applyCollapsibleFeatures (getConversationTurns s) settings s3 = (None, s4) \<and>
         steps True s3 s4 \<and>
         updateBanner (max 0 (int (length (getConversationTurns s)) - keepLastN settings))
            (int (length (getConversationTurns s))) (keepLastN settings) (getConversationTurns s) s4 =
           (None, s5) \<and>
         steps False s4 s5 \<and>
         applyTrimming s =
           (Inr (trimResult (max 0 (int (length (getConversationTurns s)) - keepLastN settings))
                   (int (length (getConversationTurns s))) (keepLastN settings)), s5)))"
proof -
  let ?turns = "getConversationTurns s"
  let ?h = "max 0 (int (length ?turns) - keepLastN settings)"
  obtain s1 where e1: "ensureStyleTag s = (None, s1)" and st1: "steps True s s1"
    using ensureStyleTag_ok [OF assms(1)] by (cases "ensureStyleTag s") auto
  have w1: "wellFormed s1" and h1: "sameHost s s1" using steps_wellFormed [OF st1 assms(1)] by simp_all
  have l1: "loadSettings s1 = Inr settings" using loadSettings_steps [OF st1] assms(2) by simp
  have t1: "getConversationTurns s1 = ?turns" using getConversationTurns_sameHost [OF assms(1) w1 h1] .
  obtain r where r: "documentElement s1 = Some r" using wellFormed_root [OF w1] by blast
  define s2 where "s2 = classToggle r CLASSES_minimalUi (minimalUi settings) s1"
  have e2: "applyMinimalUi (minimalUi settings) s1 = (None, s2)"
    using r by (simp add: applyMinimalUi_def s2_def)
  have p2: "pstep s1 s2" unfolding s2_def by (rule pstep.minimal)
  have w2: "wellFormed s2" using pstep_wellFormed [OF w1 p2] by simp
  show ?thesis
  proof (cases "?turns = []")
    case True
    then have "applyTrimming s = (Inr (trimResult 0 0 (keepLastN settings)), removeBanner s2)"
      using e1 l1 t1 e2 by (simp add: applyTrimming_def Let_def)
    then show ?thesis using e1 st1 r s2_def t1 True by auto
  next
    case False
    define s3 where "s3 = hideLoop ?turns 0 ?h s2"
    have p3: "pstep\<^sup>*\<^sup>* s2 s3" unfolding s3_def by (rule psteps_hideLoop)
    have w3: "wellFormed s3" using psteps_wellFormed [OF p3 w2] by simp
    obtain s4 where e4: "applyCollapsibleFeatures ?turns settings s3 = (None, s4)"
      using applyCollapsibleFeatures_ok [OF w3, of ?turns settings]
      by (cases "applyCollapsibleFeatures ?turns settings s3") auto
    have st4: "steps True s3 s4" using steps_applyCollapsibleFeatures [of True s3 s3 ?turns settings] e4
      by simp
    have w4: "wellFormed s4" and h4: "sameHost s3 s4" using steps_wellFormed [OF st4 w3] by simp_all
    have p14: "pstep\<^sup>*\<^sup>* s1 s4"
      using p2 p3 steps_psteps [OF st4] by (meson converse_rtranclp_into_rtranclp rtranclp_trans)
    have h14: "sameHost s1 s4" using psteps_wellFormed [OF p14 w1] by simp
    have hd_in: "hd ?turns \<in> set ?turns" using False by simp
    then have hd1: "hd ?turns \<in> set (pre (document s1))" "tagName (elems s1 (hd ?turns)) = ''article''"
      using turns_document [of "hd ?turns" s1] t1 by simp_all
    have hdh: "hd ?turns \<in> set (pre (heap s1))" using hd1(1) by (simp add: heap_def)
    have no1: "\<not> owned (elems s1 (hd ?turns))"
      using w1 hd1(2) by (auto simp: wellFormed_def selectable_def)
    then have "hd ?turns \<in> set (hostNodes s1)" using hd1(1) by (simp add: hostNodes_def)
    then have "hd ?turns \<in> set (hostNodes s4)" using h14 by (simp add: sameHost_def)
    then have hd4: "hd ?turns \<in> set (pre (document s4))" by (simp add: hostNodes_def)
    have "sameData (elems s1 (hd ?turns)) (elems s4 (hd ?turns))"
      using sameHost_data [OF w1 h14 hdh] .
    then have tg4: "tagName (elems s4 (hd ?turns)) \<noteq> ''html''" using hd1(2) by (simp add: sameData_def)
    have hpos: "?h \<le> 0 \<or> 0 < ?h" by auto
    obtain s5 where e5: "updateBanner ?h (int (length ?turns)) (keepLastN settings) ?turns s4 = (None, s5)"
    proof (cases "0 < ?h")
      case True
      then show ?thesis
        using updateBanner_shown [OF w4 \<open>?turns \<noteq> []\<close> hd4 tg4 True,
            where tot = "int (length ?turns)" and keep = "keepLastN settings"] that
        by (cases "updateBanner ?h (int (length ?turns)) (keepLastN settings) ?turns s4") auto
    next
      case False
      then show ?thesis using that by (simp add: updateBanner_unfold)
    qed
    have st5: "steps False s4 s5"
      using steps_updateBanner [of s4 s4 ?turns ?h "int (length ?turns)" "keepLastN settings"] False e5
      by simp
    have "applyTrimming s = (Inr (trimResult ?h (int (length ?turns)) (keepLastN settings)), s5)"
      using e1 l1 t1 e2 False e4 e5 by (simp add: applyTrimming_def Let_def s3_def)
    then show ?thesis using e1 st1 r s2_def t1 False s3_def e4 st4 e5 st5 by auto
  qed
qed

subsection \<open>Summary of one pass\<close>


lemma keepsHidden_old: "keepsHidden s t \<Longrightarrow> n < nextId s \<Longrightarrow> hiddenOf (elems t n) = hiddenOf (elems s n)"
  unfolding keepsHidden_def by (metis not_less)

lemma steps_nextId: "steps q s t \<Longrightarrow> nextId s \<le> nextId t"
  using steps_keepsHidden [of q s t] by (simp add: keepsHidden_def)

lemma hiddenOf_classToggle:
  "c \<noteq> CLASSES_hiddenTurn \<Longrightarrow> hiddenOf (elems (classToggle r c b s) n) = hiddenOf (elems s n)"
  by (simp add: hiddenOf_def)

lemma elems_removeBanner [simp]: "elems (removeBanner s) = elems s"
  by (simp add: removeBanner_def split: option.splits)

lemma applyTrimming_summary:
  assumes "wellFormed s" "singleBanner s" "loadSettings s = Inr settings"
  defines "turns \<equiv> getConversationTurns s"
  defines "h \<equiv> max 0 (int (length turns) - keepLastN settings)"
  defines "s' \<equiv> snd (applyTrimming s)"
  shows "fst (applyTrimming s) = Inr (trimResult h (int (length turns)) (keepLastN settings))"
    and "pstep\<^sup>*\<^sup>* s s'"
    and "\<forall>j < length turns. hiddenOf (elems s' (turns ! j)) = (int j < h, if int j < h then Some ''1'' else None)"
    and "\<forall>n < nextId s. n \<notin> set turns \<longrightarrow> hiddenOf (elems s' n) = hiddenOf (elems s n)"
    and "if 0 < h
         then \<exists>b. bannerNodes s' = (if bannerNodes s = [] then [b] else bannerNodes s) \<and>
                getElementById IDS_banner s' = Some b \<and>
                textContent (elems s' b) = bannerText h (int (length turns)) (keepLastN settings)
         else bannerNodes s' = [] \<and> getElementById IDS_banner s' = None"
proof -
  obtain r s1 s2 where
    e1: "ensureStyleTag s = (None, s1)" and st1: "steps True s s1" and
    s2: "s2 = classToggle r CLASSES_minimalUi (minimalUi settings) s1" and
    t1: "getConversationTurns s1 = turns" and
    rest: "if turns = []
      then applyTrimming s = (Inr (trimResult 0 0 (keepLastN settings)), removeBanner s2)
      else (\<exists>s3 s4 s5.
         s3 = hideLoop turns 0 h s2 \<and>
         applyCollapsibleFeatures turns settings s3 = (None, s4) \<and> steps True s3 s4 \<and>
         updateBanner h (int (length turns)) (keepLastN settings) turns s4 = (None, s5) \<and>
         steps False s4 s5 \<and>
         applyTrimming s = (Inr (trimResult h (int (length turns)) (keepLastN settings)), s5))"
    using applyTrimming_stages [OF assms(1,3)] unfolding turns_def h_def by blast
  have w1: "wellFormed s1" using steps_wellFormed [OF st1 assms(1)] by simp
  have p2: "pstep s1 s2" unfolding s2 by (rule pstep.minimal)
  have w2: "wellFormed s2" using pstep_wellFormed [OF w1 p2] by simp
  have p02: "pstep\<^sup>*\<^sup>* s s2" using steps_psteps [OF st1] p2 by simp
  have b2: "bannerNodes s2 = bannerNodes s"
    using steps_bannerNodes [OF st1 assms(1)] by (simp add: s2 bannerNodes_classToggle)
  have k: "1 \<le> keepLastN settings" using loadSettings_range [OF assms(3)] by simp
  have n2: "nextId s \<le> nextId s2" using steps_nextId [OF st1] by (simp add: s2)
  have hid2: "hiddenOf (elems s2 n) = hiddenOf (elems s n)" if "n < nextId s" for n
  proof -
    have "CLASSES_minimalUi \<noteq> CLASSES_hiddenTurn" by (simp add: names_defs)
    then have "hiddenOf (elems s2 n) = hiddenOf (elems s1 n)"
      unfolding s2 by (rule hiddenOf_classToggle)
    then show ?thesis using keepsHidden_old [OF steps_keepsHidden [OF st1] that] by simp
  qed
  have "fst (applyTrimming s) = Inr (trimResult h (int (length turns)) (keepLastN settings)) \<and>
    pstep\<^sup>*\<^sup>* s s' \<and>
    (\<forall>j < length turns. hiddenOf (elems s' (turns ! j)) = (int j < h, if int j < h then Some ''1'' else None)) \<and>
    (\<forall>n < nextId s. n \<notin> set turns \<longrightarrow> hiddenOf (elems s' n) = hiddenOf (elems s n)) \<and>
    (if 0 < h
         then \<exists>b. bannerNodes s' = (if bannerNodes s = [] then [b] else bannerNodes s) \<and>
                getElementById IDS_banner s' = Some b \<and>
                textContent (elems s' b) = bannerText h (int (length turns)) (keepLastN settings)
         else bannerNodes s' = [] \<and> getElementById IDS_banner s' = None)"
  proof (cases "turns = []")
    case True
    then have a: "applyTrimming s = (Inr (trimResult 0 0 (keepLastN settings)), removeBanner s2)"
      using rest by simp
    have h0: "h = 0" using True k by (simp add: h_def)
    have sb2: "singleBanner s2" using assms(2) b2 by (simp add: singleBanner_def)
    have "steps False s2 (removeBanner s2)" using steps_removeBanner [of s2 s2] by simp
    then have p: "pstep\<^sup>*\<^sup>* s (removeBanner s2)" using p02 steps_psteps by (meson rtranclp_trans)
    have bn: "bannerNodes (removeBanner s2) = []"
      using removeBanner_result [OF w2] sb2 by (cases "bannerNodes s2") (simp_all add: singleBanner_def)
    show ?thesis unfolding s'_def using a True h0 p removeBanner_none [OF w2 sb2] hid2 bn
      by simp
  next
    case False
    then obtain s3 s4 s5 where
      s3: "s3 = hideLoop turns 0 h s2" and
      e4: "applyCollapsibleFeatures turns settings s3 = (None, s4)" and st4: "steps True s3 s4" and
      e5: "updateBanner h (int (length turns)) (keepLastN settings) turns s4 = (None, s5)" and
      st5: "steps False s4 s5" and
      a: "applyTrimming s = (Inr (trimResult h (int (length turns)) (keepLastN settings)), s5)"
      using rest by auto
    have p3: "pstep\<^sup>*\<^sup>* s2 s3" unfolding s3 by (rule psteps_hideLoop)
    have w3: "wellFormed s3" using psteps_wellFormed [OF p3 w2] by simp
    have w4: "wellFormed s4" using steps_wellFormed [OF st4 w3] by simp
    have p: "pstep\<^sup>*\<^sup>* s s5"
      using p02 p3 steps_psteps [OF st4] steps_psteps [OF st5] by (meson rtranclp_trans)
    have k35: "keepsHidden s3 s5"
      using keepsHidden_trans [OF steps_keepsHidden [OF st4] steps_keepsHidden [OF st5]] .
    have n3: "nextId s3 = nextId s2" by (simp add: s3)
    have tn: "x < nextId s3" if "x \<in> set turns" for x
    proof -
      have "x \<in> set (pre (heap s1))" using turns_document [of x s1] t1 that by (simp add: heap_def)
      then have "x < nextId s1" using w1 by (simp add: wellFormed_def)
      then show ?thesis by (simp add: n3 s2)
    qed
    have d: "distinct turns" unfolding turns_def using distinct_turns [OF assms(1)] .
    have m: "hiddenOf (elems s5 (turns ! j)) = (int j < h, if int j < h then Some ''1'' else None)"
      if "j < length turns" for j
      using keepsHidden_old [OF k35 tn [of "turns ! j"]] hideLoop_hidden [OF d that, of 0 h s2] that
      by (simp add: s3)
    have o: "hiddenOf (elems s5 n) = hiddenOf (elems s n)" if "n < nextId s" "n \<notin> set turns" for n
    proof -
      have "n < nextId s3" using that(1) n2 n3 by simp
      then have "hiddenOf (elems s5 n) = hiddenOf (elems s3 n)" using keepsHidden_old [OF k35] by simp
      also have "\<dots> = hiddenOf (elems s2 n)" using hideLoop_other [OF that(2)] by (simp add: s3)
      finally show ?thesis using hid2 [OF that(1)] by simp
    qed
    have b4: "bannerNodes s4 = bannerNodes s"
      using steps_bannerNodes [OF st4 w3] b2 by (simp add: s3 bannerNodes_hideLoop)
    have ban: "if 0 < h
         then \<exists>b. bannerNodes s5 = (if bannerNodes s = [] then [b] else bannerNodes s) \<and>
                getElementById IDS_banner s5 = Some b \<and>
                textContent (elems s5 b) = bannerText h (int (length turns)) (keepLastN settings)
         else bannerNodes s5 = [] \<and> getElementById IDS_banner s5 = None"
    proof (cases "0 < h")
      case True
      have hd_in: "hd turns \<in> set turns" using False by simp
      have hd1: "hd turns \<in> set (pre (document s1))" "tagName (elems s1 (hd turns)) = ''article''"
        using turns_document [of "hd turns" s1] t1 hd_in by simp_all
      have p14: "pstep\<^sup>*\<^sup>* s1 s4" using p2 p3 steps_psteps [OF st4]
        by (meson converse_rtranclp_into_rtranclp rtranclp_trans)
      have h14: "sameHost s1 s4" using psteps_wellFormed [OF p14 w1] by simp
      have hdh: "hd turns \<in> set (pre (heap s1))" using hd1(1) by (simp add: heap_def)
      have "\<not> owned (elems s1 (hd turns))" using w1 hd1(2) by (auto simp: wellFormed_def selectable_def)
      then have "hd turns \<in> set (hostNodes s1)" using hd1(1) by (simp add: hostNodes_def)
      then have "hd turns \<in> set (hostNodes s4)" using h14 by (simp add: sameHost_def)
      then have hd4: "hd turns \<in> set (pre (document s4))" by (simp add: hostNodes_def)
      have "sameData (elems s1 (hd turns)) (elems s4 (hd turns))" using sameHost_data [OF w1 h14 hdh] .
      then have tg4: "tagName (elems s4 (hd turns)) \<noteq> ''html''" using hd1(2) by (simp add: sameData_def)
      show ?thesis
        using updateBanner_shown [OF w4 False hd4 tg4 True,
            where tot = "int (length turns)" and keep = "keepLastN settings"] e5 True
        unfolding b4 by (cases "bannerNodes s = []") auto
    next
      case hf: False
      then have s5: "s5 = removeBanner s4" using e5 by (simp add: updateBanner_unfold)
      have sb4: "singleBanner s4" using assms(2) b4 by (simp add: singleBanner_def)
      have "bannerNodes (removeBanner s4) = []"
        using removeBanner_result [OF w4] sb4 by (cases "bannerNodes s4") (simp_all add: singleBanner_def)
      then show ?thesis using hf s5 removeBanner_none [OF w4 sb4] by simp
    qed
    show ?thesis unfolding s'_def using a p m o ban by simp
  qed
  then show "fst (applyTrimming s) = Inr (trimResult h (int (length turns)) (keepLastN settings))"
    and "pstep\<^sup>*\<^sup>* s s'"
    and "\<forall>j < length turns. hiddenOf (elems s' (turns ! j)) = (int j < h, if int j < h then Some ''1'' else None)"
    and "\<forall>n < nextId s. n \<notin> set turns \<longrightarrow> hiddenOf (elems s' n) = hiddenOf (elems s n)"
    and "if 0 < h
         then \<exists>b. bannerNodes s' = (if bannerNodes s = [] then [b] else bannerNodes s) \<and>
                getElementById IDS_banner s' = Some b \<and>
                textContent (elems s' b) = bannerText h (int (length turns)) (keepLastN settings)
         else bannerNodes s' = [] \<and> getElementById IDS_banner s' = None"
    by simp_all
qed

subsection \<open>The small conversation page\<close>

lemma demo_owned: "\<not> owned (demoElems n)"
  by (simp add: demoElems_def mk_def blankElement_def owned_def isToggle_def names_defs)

lemma demo_isToggle: "\<not> isToggle (demoElems n)"
  using demo_owned [of n] by (simp add: owned_def)

lemma demo_pre: "pre (heap demoPage) = [1, 2, 3, 4, 5, 6, 7, 8, 9, 10, 11]"
  by (simp add: demoPage_def heap_def)

lemma wellFormed_demoPage: "wellFormed demoPage"
  unfolding wellFormed_def demo_pre
  by (simp add: demoPage_def demo_owned demo_isToggle) (simp add: demoElems_def mk_def blankElement_def)

lemma singleBanner_demoPage: "singleBanner demoPage"
  by (simp add: singleBanner_def bannerNodes_def demoPage_def demoElems_def mk_def blankElement_def names_defs)

lemma loadSettings_demoPage:
  "loadSettings demoPage = Inr \<lparr>keepLastN = 2, minimalUi = True, collapseOwnMessages = True, collapseCodeBlocks = True\<rparr>"
  by code_simp

lemma turns_demoPage: "getConversationTurns demoPage = [5, 7, 10]"
  by code_simp

subsection \<open>Agreement of the two hidden markers\<close>


lemma agreeKept_refl [simp]: "agreeKept s s"
  by (simp add: agreeKept_def)

lemma agreeKept_trans: "agreeKept s t \<Longrightarrow> agreeKept t u \<Longrightarrow> agreeKept s u"
  by (simp add: agreeKept_def)

lemma keepsHidden_agreeKept: "keepsHidden s t \<Longrightarrow> agreeKept s t"
  unfolding keepsHidden_def agreeKept_def markersAgree_def hiddenOf_def
  by (metis fst_conv snd_conv option.distinct(1))

lemma agreeKept_eq: "elems t = elems s \<Longrightarrow> agreeKept s t"
  by (simp add: agreeKept_def)

lemma setTurnHidden_markers:
  "(CLASSES_hiddenTurn \<in> classList (elems (setTurnHidden turn hidden s) turn)) = hidden \<and>
   attributes (elems (setTurnHidden turn hidden s) turn) hiddenAttr = (if hidden then Some ''1'' else None) \<and>
   (\<forall>n. n \<noteq> turn \<longrightarrow> elems (setTurnHidden turn hidden s) n = elems s n) \<and>
   nextId (setTurnHidden turn hidden s) = nextId s"
  by (simp add: setTurnHidden_def Let_def)

lemma setTurnHidden_agree: "markersAgree (elems (setTurnHidden turn hidden s) turn)"
  using setTurnHidden_markers [of turn hidden s] by (simp add: markersAgree_def)

lemma setTurnHidden_agreeKept: "agreeKept s (setTurnHidden turn hidden s)"
  unfolding agreeKept_def
  using setTurnHidden_markers [of turn hidden s] setTurnHidden_agree [of turn hidden s]
  by metis

lemma hideLoop_agree:
  "agreeKept s (hideLoop turns i h s) \<and> (\<forall>t \<in> set turns. markersAgree (elems (hideLoop turns i h s) t))"
proof (induction turns arbitrary: i s)
  case Nil
  then show ?case by simp
next
  case (Cons turn rest)
  let ?s1 = "setTurnHidden turn (int i < h) s"
  have a: "agreeKept s ?s1" by (rule setTurnHidden_agreeKept)
  have b: "markersAgree (elems ?s1 turn)" by (rule setTurnHidden_agree)
  have ih: "agreeKept ?s1 (hideLoop rest (Suc i) h ?s1) \<and>
     (\<forall>t \<in> set rest. markersAgree (elems (hideLoop rest (Suc i) h ?s1) t))" by (rule Cons.IH)
  have "markersAgree (elems (hideLoop rest (Suc i) h ?s1) turn)" using b ih by (simp add: agreeKept_def)
  then show ?case using a ih by (auto intro: agreeKept_trans)
qed

lemma fold_show_agree:
  "agreeKept s (fold (\<lambda>turn. setTurnHidden turn False) turns s) \<and>
   (\<forall>t \<in> set turns. markersAgree (elems (fold (\<lambda>turn. setTurnHidden turn False) turns s) t))"
proof (induction turns arbitrary: s)
  case Nil
  then show ?case by simp
next
  case (Cons turn rest)
  let ?s1 = "setTurnHidden turn False s"
  let ?f = "fold (\<lambda>turn. setTurnHidden turn False) rest ?s1"
  have a: "agreeKept s ?s1" by (rule setTurnHidden_agreeKept)
  have b: "markersAgree (elems ?s1 turn)" by (rule setTurnHidden_agree)
  have ih: "agreeKept ?s1 ?f \<and> (\<forall>t \<in> set rest. markersAgree (elems ?f t))" by (rule Cons.IH)
  have "markersAgree (elems ?f turn)" using b ih by (simp add: agreeKept_def)
  then show ?case using a ih by (auto intro: agreeKept_trans)
qed

lemma showAllTurns_agree:
  "agreeKept s (showAllTurns s) \<and> (\<forall>t \<in> set (getConversationTurns s). markersAgree (elems (showAllTurns s) t))"
  using fold_show_agree [of s "getConversationTurns s"]
  by (simp add: showAllTurns_def agreeKept_def)

lemma ensureStyleTag_keepsHidden: "keepsHidden s (snd (ensureStyleTag s))"
proof -
  have "keepsHidden s (updateElem (nextId s) (\<lambda>e. e\<lparr>elemId := IDS_styleTag\<rparr>) (snd (createElement ''style'' s)))"
    by (auto simp: keepsHidden_def hiddenOf_def blankElement_def)
  moreover have "keepsHidden s t \<Longrightarrow> keepsHidden s (snd (appendChild r n t))" for t r n
    using preInsert_data [of r n None t "fst (preInsert r n None t)" "snd (preInsert r n None t)"]
    by (simp add: keepsHidden_def appendChild_def)
  ultimately show ?thesis
    by (simp add: ensureStyleTag_def createElement_def Let_def split: option.splits)
qed

lemma applyMinimalUi_keepsHidden: "keepsHidden s (snd (applyMinimalUi b s))"
  by (auto simp: applyMinimalUi_def keepsHidden_def hiddenOf_def names_defs split: option.splits)

lemma applyTrimming_agree:
  "agreeKept s (snd (applyTrimming s)) \<and>
   (\<forall>r. fst (applyTrimming s) = Inr r \<longrightarrow>
      (\<forall>t \<in> set (getConversationTurns (snd (ensureStyleTag s))). markersAgree (elems (snd (applyTrimming s)) t)))"
proof -
  obtain r1 s1 where e1: "ensureStyleTag s = (r1, s1)" by fastforce
  have k1: "agreeKept s s1" using ensureStyleTag_keepsHidden [of s] e1
    by (simp add: keepsHidden_agreeKept)
  show ?thesis
  proof (cases r1)
    case (Some e)
    then show ?thesis using e1 k1 by (simp add: applyTrimming_def)
  next
    case None
    note r1 = None
    show ?thesis
    proof (cases "loadSettings s1")
      case (Inl e)
      then show ?thesis using e1 r1 k1 by (simp add: applyTrimming_def)
    next
      case (Inr settings)
      define turns where "turns = getConversationTurns s1"
      obtain r2 s2 where e2: "applyMinimalUi (minimalUi settings) s1 = (r2, s2)" by fastforce
      have k2: "agreeKept s s2" using applyMinimalUi_keepsHidden [of s1 "minimalUi settings"] e2 k1
        by (auto intro: agreeKept_trans keepsHidden_agreeKept)
      show ?thesis
      proof (cases r2)
        case (Some e)
        then show ?thesis using e1 r1 Inr e2 k2 by (simp add: applyTrimming_def Let_def)
      next
        case None
        note r2 = None
        show ?thesis
        proof (cases "length turns = 0")
          case True
          then show ?thesis using e1 r1 Inr e2 r2 k2
            by (simp add: applyTrimming_def Let_def turns_def agreeKept_def)
        next
          case False
          define h where "h = max 0 (int (length turns) - keepLastN settings)"
          define s3 where "s3 = hideLoop turns 0 h s2"
          have k3: "agreeKept s2 s3" and a3: "\<forall>t \<in> set turns. markersAgree (elems s3 t)"
            using hideLoop_agree [of s2 turns 0 h] by (simp_all add: s3_def)
          obtain r4 s4 where e4: "applyCollapsibleFeatures turns settings s3 = (r4, s4)" by fastforce
          have st4: "steps True s3 s4" using steps_applyCollapsibleFeatures [of True s3 s3 turns settings] e4
            by simp
          have ne: "turns \<noteq> []" using False by simp
          obtain r5 s5 where e5: "updateBanner h (int (length turns)) (keepLastN settings) turns s4 = (r5, s5)"
            by fastforce
          have st5: "steps False s4 s5"
            using steps_updateBanner [of s4 s4 turns h "int (length turns)" "keepLastN settings"] ne e5
            by simp
          have k4: "agreeKept s3 s4" using st4 by (simp add: steps_keepsHidden keepsHidden_agreeKept)
          have "agreeKept s4 s5" using st5 by (simp add: steps_keepsHidden keepsHidden_agreeKept)
          then have k5: "agreeKept s3 s5" using k4 by (blast intro: agreeKept_trans)
          have res: "snd (applyTrimming s) = (if r4 = None then s5 else s4)"
            using e1 r1 Inr e2 r2 False e4 e5
            by (cases r4; cases r5)
               (simp_all add: applyTrimming_def Let_def turns_def [symmetric] h_def [symmetric]
                  s3_def [symmetric])
          have "agreeKept s3 (snd (applyTrimming s))" using res k4 k5 by simp
          then have g1: "agreeKept s (snd (applyTrimming s))" using k2 k3 by (blast intro: agreeKept_trans)
          have g2: "\<forall>t \<in> set turns. markersAgree (elems (snd (applyTrimming s)) t)"
            using a3 \<open>agreeKept s3 (snd (applyTrimming s))\<close> by (simp add: agreeKept_def)
          show ?thesis using g1 g2 e1 by (simp add: turns_def)
        qed
      qed
    qed
  qed
qed


lemma applyTrimming_demoPage: "fst (applyTrimming demoPage) = Inr (trimResult 1 3 2)"
  using applyTrimming_summary(1) [OF wellFormed_demoPage singleBanner_demoPage loadSettings_demoPage]
  by (simp add: turns_demoPage)

lemma turns_styled_demoPage: "getConversationTurns (snd (ensureStyleTag demoPage)) = [5, 7, 10]"
  by code_simp

subsection \<open>Removal of the collapse controls\<close>

lemma removeNode_document:
  "set (pre (document (removeNode n s))) \<subseteq> set (pre (document s)) - {n}"
proof (cases "subtree n (heap s)")
  case None
  then have "n \<notin> set (pre (heap s))" using subtree_None_iff [of n "heap s"] by simp
  then show ?thesis using None by (auto simp: removeNode_def heap_def)
next
  case (Some t)
  then show ?thesis using pre_cut_subset [of n "document s"] pre_cut_notin [of n "document s"]
    by (auto simp: removeNode_def)
qed

lemma fold_removeNode_document:
  "set (pre (document (fold removeNode ns s))) \<subseteq> set (pre (document s)) - set ns \<and>
   elems (fold removeNode ns s) = elems s \<and>
   messages (fold removeNode ns s) = messages s \<and>
   codeBlocks (fold removeNode ns s) = codeBlocks s"
proof (induction ns arbitrary: s)
  case Nil
  then show ?case by simp
next
  case (Cons n ns)
  show ?case using Cons [of "removeNode n s"] removeNode_document [of n s] by auto
qed

lemma fold_classRemove_data:
  "document (fold (\<lambda>node. classRemove node c) ns s) = document s \<and>
   messages (fold (\<lambda>node. classRemove node c) ns s) = messages s \<and>
   codeBlocks (fold (\<lambda>node. classRemove node c) ns s) = codeBlocks s \<and>
   (\<forall>n. tagName (elems (fold (\<lambda>node. classRemove node c) ns s) n) = tagName (elems s n) \<and>
        classList (elems (fold (\<lambda>node. classRemove node c) ns s) n) =
          (if n \<in> set ns then classList (elems s n) - {c} else classList (elems s n)))"
proof (induction ns arbitrary: s)
  case Nil
  then show ?case by simp
next
  case (Cons m ns)
  show ?case using Cons [of "classRemove m c s"]
    by (auto simp: classRemove_def updateElem_def)
qed

lemma cleanup_removes:
  fixes t c s
  defines "s1 \<equiv> fold removeNode (querySelectorAll (buttonWithClass t) s) s"
  defines "s2 \<equiv> fold (\<lambda>node. classRemove node c) (querySelectorAll (withClass c) s1) s1"
  shows "querySelectorAll (buttonWithClass t) s2 = [] \<and> querySelectorAll (withClass c) s2 = [] \<and>
         messages s2 = messages s \<and> codeBlocks s2 = codeBlocks s"
proof -
  note r = fold_removeNode_document [of "querySelectorAll (buttonWithClass t) s" s, folded s1_def]
  note k = fold_classRemove_data [of c "querySelectorAll (withClass c) s1" s1, folded s2_def]
  have a: "\<not> buttonWithClass t (elems s1 n)" if "n \<in> set (pre (document s1))" for n
    using r that by (auto simp: querySelectorAll_def)
  have b: "\<not> buttonWithClass t (elems s2 n)" if "n \<in> set (pre (document s2))" for n
    using a [of n] that k by (auto simp: buttonWithClass_def split: if_splits)
  have c: "\<not> withClass c (elems s2 n)" if "n \<in> set (pre (document s2))" for n
    using that k by (auto simp: withClass_def querySelectorAll_def)
  show ?thesis using b c r k by (simp add: querySelectorAll_def filter_empty_conv)
qed

subsection \<open>Show all\<close>

lemma pstep_maps:
  "pstep s t \<Longrightarrow> mapGrows (messages s) (messages t) \<and> mapGrows (codeBlocks s) (codeBlocks t) \<and>
     storage t = storage s \<and> sent t = sent s \<and> contextValid t = contextValid s"
  by (induction rule: pstep.induct) (simp_all add: step_maps)

lemma psteps_maps:
  "pstep\<^sup>*\<^sup>* s t \<Longrightarrow> mapGrows (messages s) (messages t) \<and> mapGrows (codeBlocks s) (codeBlocks t) \<and>
     storage t = storage s \<and> sent t = sent s \<and> contextValid t = contextValid s"
proof (induction rule: rtranclp_induct)
  case base
  then show ?case by simp
next
  case (step y z)
  then show ?case using pstep_maps [of y z] by (auto intro: mapGrows_trans)
qed

lemma psteps_loadSettings: "pstep\<^sup>*\<^sup>* s t \<Longrightarrow> loadSettings t = loadSettings s"
  using psteps_maps [of s t] by (simp add: loadSettings_def stored_def)

lemma shown_shown [simp]: "shown (shown e) = shown e"
  by (simp add: shown_def)

lemma fold_show:
  "elems (fold (\<lambda>turn. setTurnHidden turn False) turns s) =
     (\<lambda>n. if n \<in> set turns then shown (elems s n) else elems s n) \<and>
   document (fold (\<lambda>turn. setTurnHidden turn False) turns s) = document s \<and>
   detached (fold (\<lambda>turn. setTurnHidden turn False) turns s) = detached s \<and>
   fold (\<lambda>turn. setTurnHidden turn False) turns s =
     s\<lparr>elems := elems (fold (\<lambda>turn. setTurnHidden turn False) turns s)\<rparr>"
proof (induction turns arbitrary: s)
  case Nil
  then show ?case by simp
next
  case (Cons a turns)
  let ?s = "setTurnHidden a False s"
  have e: "elems ?s = (elems s)(a := shown (elems s a))" "?s = s\<lparr>elems := elems ?s\<rparr>"
    by (simp_all add: setTurnHidden_def Let_def shown_def classToggle_def removeAttribute_def
        updateElem_def)
  have 1: "elems (fold (\<lambda>turn. setTurnHidden turn False) turns ?s) =
     (\<lambda>n. if n \<in> set (a # turns) then shown (elems s n) else elems s n)"
    using Cons [of ?s] e(1) by (auto simp: fun_eq_iff)
  have 2: "fold (\<lambda>turn. setTurnHidden turn False) turns ?s =
     s\<lparr>elems := elems (fold (\<lambda>turn. setTurnHidden turn False) turns ?s)\<rparr>"
  proof -
    have "fold (\<lambda>turn. setTurnHidden turn False) turns ?s =
       ?s\<lparr>elems := elems (fold (\<lambda>turn. setTurnHidden turn False) turns ?s)\<rparr>"
      using Cons [of ?s] by blast
    also have "\<dots> = s\<lparr>elems := elems (fold (\<lambda>turn. setTurnHidden turn False) turns ?s)\<rparr>"
      by (subst e(2)) simp
    finally show ?thesis .
  qed
  show ?case using Cons [of ?s] 1 2 by simp
qed

lemma psteps_fold_show: "pstep\<^sup>*\<^sup>* s (fold (\<lambda>turn. setTurnHidden turn False) turns s)"
proof (induction turns arbitrary: s)
  case Nil
  then show ?case by simp
next
  case (Cons turn rest)
  have "pstep s (setTurnHidden turn False s)" by (rule pstep.hide)
  then show ?case using Cons [of "setTurnHidden turn False s"]
    by (simp add: converse_rtranclp_into_rtranclp)
qed

lemma psteps_showAllTurns: "pstep\<^sup>*\<^sup>* s (showAllTurns s)"
proof -
  let ?s = "fold (\<lambda>turn. setTurnHidden turn False) (getConversationTurns s) s"
  have "steps False ?s (removeBanner ?s)" using steps_removeBanner [of ?s ?s] by simp
  then show ?thesis using psteps_fold_show [of s "getConversationTurns s"] steps_psteps
    unfolding showAllTurns_def by (meson rtranclp_trans)
qed

lemma removeBanner_frame:
  "messages (removeBanner s) = messages s \<and> codeBlocks (removeBanner s) = codeBlocks s \<and>
   storage (removeBanner s) = storage s \<and> sent (removeBanner s) = sent s \<and>
   messageListeners (removeBanner s) = messageListeners s \<and>
   codeListeners (removeBanner s) = codeListeners s \<and>
   (\<forall>b. getElementById IDS_banner s = Some b \<longrightarrow> b \<notin> set (pre (document (removeBanner s))))"
proof (cases "getElementById IDS_banner s")
  case None
  then show ?thesis by (simp add: removeBanner_def)
next
  case (Some b)
  then have "b \<in> set (pre (document s))" by (auto simp: getElementById_def dest: find_SomeD)
  then have "subtree b (heap s) \<noteq> None" using subtree_None_iff [of b "heap s"] by (simp add: heap_def)
  then show ?thesis using Some pre_cut_notin [of b "document s"]
    by (auto simp: removeBanner_def removeNode_def)
qed

lemma filter_without:
  "filter (\<lambda>x. x \<noteq> n) ys = filter (\<lambda>x. x \<noteq> n) xs \<Longrightarrow> \<not> P n \<Longrightarrow> filter P ys = filter P xs"
proof -
  assume a: "filter (\<lambda>x. x \<noteq> n) ys = filter (\<lambda>x. x \<noteq> n) xs" and b: "\<not> P n"
  have "filter P zs = filter P (filter (\<lambda>x. x \<noteq> n) zs)" for zs
    using b by (induction zs) auto
  then show ?thesis using a by metis
qed

lemma removeBanner_toggles:
  assumes "wellFormed s" "c = CLASSES_messageToggle \<or> c = CLASSES_codeToggle"
  shows "querySelectorAll (buttonWithClass c) (removeBanner s) = querySelectorAll (buttonWithClass c) s"
proof (cases "getElementById IDS_banner s")
  case None
  then show ?thesis by (simp add: removeBanner_def)
next
  case (Some b)
  then have id: "elemId (elems s b) = IDS_banner" using getElementById_elemId by blast
  then have o: "owned (elems s b)" by (simp add: owned_def)
  have "\<not> isToggle (elems s b)" using assms(1) id by (auto simp: wellFormed_def)
  then have nb: "\<not> buttonWithClass c (elems s b)" using assms(2)
    by (auto simp: isToggle_def buttonWithClass_def)
  have "filter (\<lambda>x. x \<noteq> b) (pre (document (removeNode b s))) = filter (\<lambda>x. x \<noteq> b) (pre (document s))"
    using removeNode_leafEdit [OF assms(1) o] by (simp add: leafEdit_def)
  then have "filter (\<lambda>n. buttonWithClass c (elems s n)) (pre (document (removeNode b s))) =
      filter (\<lambda>n. buttonWithClass c (elems s n)) (pre (document s))"
    using nb by (rule filter_without)
  then show ?thesis using Some by (simp add: removeBanner_def querySelectorAll_def)
qed

lemma sent_update_queries [simp]:
  "querySelectorAll sel (s\<lparr>sent := x\<rparr>) = querySelectorAll sel s"
  "querySelector sel (s\<lparr>sent := x\<rparr>) = querySelector sel s"
  "getElementById i (s\<lparr>sent := x\<rparr>) = getElementById i s"
  "contains a b (s\<lparr>sent := x\<rparr>) = contains a b s"
  "heap (s\<lparr>sent := x\<rparr>) = heap s"
  by (simp_all add: querySelectorAll_def querySelector_def getElementById_def contains_def heap_def)

lemma sent_update_turns [simp]:
  "getConversationTurns (s\<lparr>sent := x\<rparr>) = getConversationTurns s"
  by (simp add: getConversationTurns_def Let_def cong: if_cong option.case_cong)

lemma sent_update_wellFormed [simp]:
  "wellFormed (s\<lparr>sent := x\<rparr>) = wellFormed s" "singleBanner (s\<lparr>sent := x\<rparr>) = singleBanner s"
  by (simp_all add: wellFormed_def singleBanner_def bannerNodes_def)

lemma showAllTurns_effect:
  "elems (showAllTurns s) =
     (\<lambda>n. if n \<in> set (getConversationTurns s) then shown (elems s n) else elems s n) \<and>
   messages (showAllTurns s) = messages s \<and> codeBlocks (showAllTurns s) = codeBlocks s \<and>
   storage (showAllTurns s) = storage s \<and> sent (showAllTurns s) = sent s \<and>
   messageListeners (showAllTurns s) = messageListeners s \<and>
   codeListeners (showAllTurns s) = codeListeners s \<and>
   (\<forall>b. getElementById IDS_banner s = Some b \<longrightarrow> b \<notin> set (pre (document (showAllTurns s))))"
proof -
  let ?s = "fold (\<lambda>turn. setTurnHidden turn False) (getConversationTurns s) s"
  note f = fold_show [of "getConversationTurns s" s]
  have eq: "?s = s\<lparr>elems := elems ?s\<rparr>" using f by blast
  have sc: "messages ?s = messages s" "codeBlocks ?s = codeBlocks s" "storage ?s = storage s"
    "sent ?s = sent s" "messageListeners ?s = messageListeners s" "codeListeners ?s = codeListeners s"
    by (subst eq, simp)+
  have "elemId (elems ?s n) = elemId (elems s n)" for n using f by (simp add: shown_def)
  then have g: "getElementById IDS_banner ?s = getElementById IDS_banner s"
    using f by (simp add: getElementById_def)
  show ?thesis unfolding showAllTurns_def using removeBanner_frame [of ?s] f sc g by simp
qed

lemma showAllTurns_wellFormed:
  assumes "wellFormed s" "singleBanner s"
  shows "wellFormed (showAllTurns s) \<and> singleBanner (showAllTurns s) \<and>
    getElementById IDS_banner (showAllTurns s) = None \<and>
    getConversationTurns (showAllTurns s) = getConversationTurns s \<and>
    querySelectorAll (buttonWithClass CLASSES_messageToggle) (showAllTurns s) =
      querySelectorAll (buttonWithClass CLASSES_messageToggle) s \<and>
    querySelectorAll (buttonWithClass CLASSES_codeToggle) (showAllTurns s) =
      querySelectorAll (buttonWithClass CLASSES_codeToggle) s"
proof -
  let ?s = "fold (\<lambda>turn. setTurnHidden turn False) (getConversationTurns s) s"
  note f = fold_show [of "getConversationTurns s" s]
  have w: "wellFormed ?s" using psteps_wellFormed [OF psteps_fold_show assms(1)] by simp
  have "bannerNodes ?s = bannerNodes s" using f by (simp add: bannerNodes_def shown_def)
  then have sb: "singleBanner ?s" using assms(2) by (simp add: singleBanner_def)
  have ws: "wellFormed (showAllTurns s) \<and> sameHost s (showAllTurns s)"
    using psteps_wellFormed [OF psteps_showAllTurns assms(1)] .
  have t: "getConversationTurns (showAllTurns s) = getConversationTurns s"
    using getConversationTurns_sameHost [OF assms(1)] ws by simp
  have q: "querySelectorAll (buttonWithClass c) ?s = querySelectorAll (buttonWithClass c) s"
    if "c \<noteq> CLASSES_hiddenTurn" for c
    using f that by (auto simp: querySelectorAll_def buttonWithClass_def shown_def intro: filter_cong)
  show ?thesis
    using ws t removeBanner_none [OF w sb] removeBanner_toggles [OF w, of CLASSES_messageToggle]
      removeBanner_toggles [OF w, of CLASSES_codeToggle] q [of CLASSES_messageToggle]
      q [of CLASSES_codeToggle]
    by (simp add: showAllTurns_def names_defs)
qed

text \<open>The small page after one pass.\<close>

lemma trimmedPage_facts:
  "wellFormed trimmedPage" "singleBanner trimmedPage"
  "getConversationTurns trimmedPage = [5, 7, 10]"
  "loadSettings trimmedPage = loadSettings demoPage"
  "sent trimmedPage = []"
  "hiddenOf (elems trimmedPage 5) = (True, Some ''1'')"
  "hiddenOf (elems trimmedPage 7) = (False, None)"
  "hiddenOf (elems trimmedPage 10) = (False, None)"
  "\<exists>b. bannerNodes trimmedPage = [b] \<and> getElementById IDS_banner trimmedPage = Some b"
proof -
  note sum = applyTrimming_summary [OF wellFormed_demoPage singleBanner_demoPage
      loadSettings_demoPage, unfolded turns_demoPage, folded trimmedPage_def]
  have ws: "wellFormed trimmedPage \<and> sameHost demoPage trimmedPage"
    using psteps_wellFormed [OF sum(2) wellFormed_demoPage] .
  show "wellFormed trimmedPage" using ws by simp
  show "getConversationTurns trimmedPage = [5, 7, 10]"
    using getConversationTurns_sameHost [OF wellFormed_demoPage] ws turns_demoPage by simp
  show "loadSettings trimmedPage = loadSettings demoPage" using psteps_loadSettings [OF sum(2)] .
  show "sent trimmedPage = []" using psteps_maps [OF sum(2)] by (simp add: demoPage_def)
  have m: "hiddenOf (elems trimmedPage ([5, 7, 10] ! j)) = (int j < 1, if int j < 1 then Some ''1'' else None)"
    if "j < 3" for j using sum(3) that by simp
  show "hiddenOf (elems trimmedPage 5) = (True, Some ''1'')" using m [of 0] by simp
  show "hiddenOf (elems trimmedPage 7) = (False, None)" using m [of 1] by simp
  show "hiddenOf (elems trimmedPage 10) = (False, None)" using m [of 2] by simp
  have "bannerNodes demoPage = []"
    by (simp add: bannerNodes_def demoPage_def demoElems_def mk_def blankElement_def names_defs)
  then show b: "\<exists>b. bannerNodes trimmedPage = [b] \<and> getElementById IDS_banner trimmedPage = Some b"
    using sum(5) by auto
  then show "singleBanner trimmedPage" by (auto simp: singleBanner_def)
qed

subsection \<open>The pass and the storage\<close>

lemma keepsStore_refl [simp]: "keepsStore s s"
  by (simp add: keepsStore_def)

lemma keepsStore_trans: "keepsStore s t \<Longrightarrow> keepsStore t u \<Longrightarrow> keepsStore s u"
  by (auto simp: keepsStore_def intro: mapGrows_trans)

lemma steps_keepsStore: "steps q s t \<Longrightarrow> keepsStore s t"
  using steps_maps [of q s t] by (simp add: keepsStore_def)

lemma ensureStyleTag_keepsStore: "keepsStore s (snd (ensureStyleTag s))"
proof (cases "getElementById IDS_styleTag s \<noteq> None")
  case True
  then show ?thesis by (simp add: ensureStyleTag_unfold)
next
  case False
  show ?thesis
  proof (cases "documentElement (newStyle s)")
    case None
    then show ?thesis using False by (simp add: ensureStyleTag_unfold keepsStore_def)
  next
    case (Some r)
    obtain e t where p: "preInsert r (nextId s) None (newStyle s) = (e, t)" by fastforce
    show ?thesis using False Some p preInsert_data [OF p]
      by (simp add: ensureStyleTag_unfold keepsStore_def)
  qed
qed

lemma applyMinimalUi_keepsStore: "keepsStore s (snd (applyMinimalUi b s))"
  by (simp add: applyMinimalUi_def keepsStore_def split: option.splits)

lemma hideLoop_keepsStore: "keepsStore s (hideLoop turns i h s)"
  by (simp add: keepsStore_def)

lemma applyTrimming_keepsStore: "keepsStore s (snd (applyTrimming s))"
proof -
  obtain r1 s1 where e1: "ensureStyleTag s = (r1, s1)" by fastforce
  have k1: "keepsStore s s1" using ensureStyleTag_keepsStore [of s] e1 by simp
  show ?thesis
  proof (cases r1)
    case (Some e)
    then show ?thesis using e1 k1 by (simp add: applyTrimming_def)
  next
    case None
    note r1 = None
    show ?thesis
    proof (cases "loadSettings s1")
      case (Inl e)
      then show ?thesis using e1 r1 k1 by (simp add: applyTrimming_def)
    next
      case (Inr settings)
      define turns where "turns = getConversationTurns s1"
      obtain r2 s2 where e2: "applyMinimalUi (minimalUi settings) s1 = (r2, s2)" by fastforce
      have k2: "keepsStore s s2" using applyMinimalUi_keepsStore [of s1 "minimalUi settings"] e2 k1
        by (auto intro: keepsStore_trans)
      show ?thesis
      proof (cases r2)
        case (Some e)
        then show ?thesis using e1 r1 Inr e2 k2 by (simp add: applyTrimming_def Let_def)
      next
        case None
        note r2 = None
        show ?thesis
        proof (cases "length turns = 0")
          case True
          have "keepsStore s2 (removeBanner s2)"
            using steps_keepsStore [OF steps_removeBanner [of s2 s2]] by simp
          then have "keepsStore s (removeBanner s2)" using k2 by (blast intro: keepsStore_trans)
          then show ?thesis using True e1 r1 Inr e2 r2
            by (simp add: applyTrimming_def Let_def turns_def)
        next
          case False
          define h where "h = max 0 (int (length turns) - keepLastN settings)"
          define s3 where "s3 = hideLoop turns 0 h s2"
          have k3: "keepsStore s s3" using k2 hideLoop_keepsStore [of s2 turns 0 h]
            by (auto simp: s3_def intro: keepsStore_trans)
          obtain r4 s4 where e4: "applyCollapsibleFeatures turns settings s3 = (r4, s4)" by fastforce
          have st4: "steps True s3 s4" using steps_applyCollapsibleFeatures [of True s3 s3 turns settings] e4
            by simp
          have ne: "turns \<noteq> []" using False by simp
          obtain r5 s5 where e5: "updateBanner h (int (length turns)) (keepLastN settings) turns s4 = (r5, s5)"
            by fastforce
          have st5: "steps False s4 s5"
            using steps_updateBanner [of s4 s4 turns h "int (length turns)" "keepLastN settings"] ne e5
            by simp
          have k4: "keepsStore s s4" using k3 steps_keepsStore [OF st4] by (blast intro: keepsStore_trans)
          have k5: "keepsStore s s5" using k4 steps_keepsStore [OF st5] by (blast intro: keepsStore_trans)
          have res: "snd (applyTrimming s) = (if r4 = None then s5 else s4)"
            using e1 r1 Inr e2 r2 False e4 e5
            by (cases r4; cases r5)
               (simp_all add: applyTrimming_def Let_def turns_def [symmetric] h_def [symmetric]
                  s3_def [symmetric])
          show ?thesis using res k4 k5 by simp
        qed
      qed
    qed
  qed
qed

text \<open>Settings that were saved load as they are: they are already normalized.\<close>

lemma clampKeepLastN_idem: "clampKeepLastN (JInt (clampKeepLastN v)) = clampKeepLastN v"
proof -
  define i where "i = clampKeepLastN v"
  have r: "1 \<le> i" "i \<le> 500" using clampKeepLastN_range [of v] by (simp_all add: i_def)
  have "(500 :: int) < 2 ^ 1024 - 2 ^ 970" by simp
  then have "\<bar>i\<bar> < 2 ^ 1024 - 2 ^ 970" using r by linarith
  then have "clampKeepLastN (JInt i) = i"
    using r by (simp add: clampKeepLastN_cases parseInt10_numberToString)
  then show ?thesis by (simp add: i_def)
qed

lemma saveSettings_valid:
  assumes "contextValid s"
  shows "saveSettings v s =
     (Inr (), s\<lparr>storage := (storage s)
                 (''keepLastN'' \<mapsto> JInt (keepLastN v),
                  ''minimalUi'' \<mapsto> JBool (minimalUi v),
                  ''collapseOwnMessages'' \<mapsto> JBool (collapseOwnMessages v),
                  ''collapseCodeBlocks'' \<mapsto> JBool (collapseCodeBlocks v))\<rparr>)"
    and "loadSettings (snd (saveSettings v s)) =
     Inr \<lparr>keepLastN = clampKeepLastN (JInt (keepLastN v)), minimalUi = minimalUi v,
          collapseOwnMessages = collapseOwnMessages v, collapseCodeBlocks = collapseCodeBlocks v\<rparr>"
    and "wellFormed (snd (saveSettings v s)) = wellFormed s"
    and "singleBanner (snd (saveSettings v s)) = singleBanner s"
    and "getConversationTurns (snd (saveSettings v s)) = getConversationTurns s"
    and "sent (snd (saveSettings v s)) = sent s"
  using assms
  by (simp_all add: saveSettings_def loadSettings_def stored_def wellFormed_def
      heap_def singleBanner_def bannerNodes_def getConversationTurns_def querySelectorAll_def
      querySelector_def contains_def Let_def cong: if_cong option.case_cong)

subsection \<open>Entries of the collapse-state maps\<close>






lemma maps_update_wellFormed [simp]:
  "wellFormed (s\<lparr>messages := x\<rparr>) = wellFormed s" "wellFormed (s\<lparr>codeBlocks := y\<rparr>) = wellFormed s"
  "parentElement n (s\<lparr>messages := x\<rparr>) = parentElement n s"
  "parentElement n (s\<lparr>codeBlocks := y\<rparr>) = parentElement n s"
  by (simp_all add: wellFormed_def heap_def parentElement_def)


subsection \<open>Ancestors and descendants\<close>


lemma ancestorsOf_Cons_in:
  "x \<in> set (pre ts) \<Longrightarrow> m \<noteq> x \<Longrightarrow> ancestorsOf x (Tree m ts # us) = ancestorsOf x ts @ [m]"
  using ancestorsOf_empty_iff [of x ts] by (cases "ancestorsOf x ts") auto

lemma ancestorsOf_Cons_out:
  "x \<notin> set (pre ts) \<Longrightarrow> m \<noteq> x \<Longrightarrow> ancestorsOf x (Tree m ts # us) = ancestorsOf x us"
  using ancestorsOf_empty_iff [of x ts] by (cases "ancestorsOf x ts") auto

lemma ancestorsOf_Cons_self: "ancestorsOf m (Tree m ts # us) = [m]"
  by simp

lemma ancestorsOf_Cons_in': "x \<in> set (pre ts) \<Longrightarrow> x \<noteq> m \<Longrightarrow> ancestorsOf x (Tree m ts # us) = ancestorsOf x ts @ [m]"
  using ancestorsOf_Cons_in [of x ts m us] by auto

lemma ancestorsOf_Cons_out': "x \<notin> set (pre ts) \<Longrightarrow> x \<noteq> m \<Longrightarrow> ancestorsOf x (Tree m ts # us) = ancestorsOf x us"
  using ancestorsOf_Cons_out [of x ts m us] by auto

lemmas anc_Cons = ancestorsOf_Cons_self ancestorsOf_Cons_in ancestorsOf_Cons_in' ancestorsOf_Cons_out
  ancestorsOf_Cons_out'

lemma descendants_ancestors:
  "distinct (pre f) \<Longrightarrow> y \<in> set (descendants x f) \<longleftrightarrow> x \<in> set (ancestorsOf y f) \<and> x \<noteq> y"
proof (induction f arbitrary: x y rule: pre.induct)
  case 1
  then show ?case by simp
next
  case (2 m ts us)
  have d: "distinct (pre ts)" "distinct (pre us)" "m \<notin> set (pre ts)" "m \<notin> set (pre us)"
    "set (pre ts) \<inter> set (pre us) = {}" using 2(3) by auto
  have sub: "\<And>z f. set (ancestorsOf z f) \<subseteq> set (pre f)" by (rule ancestorsOf_subset)
  show ?case
  proof (cases "m = x")
    case True
    show ?thesis
    proof (cases "y \<in> set (pre ts)")
      case yt: True
      then have "m \<noteq> y" using d by auto
      then show ?thesis using True yt by (simp add: descendants_Cons anc_Cons del: ancestorsOf.simps(2))
    next
      case yt: False
      show ?thesis
      proof (cases "m = y")
        case True
        then show ?thesis using \<open>m = x\<close> yt by (simp add: descendants_Cons)
      next
        case False
        have "x \<notin> set (ancestorsOf y us)" using sub [of y us] d True by auto
        then show ?thesis using True yt False by (simp add: descendants_Cons anc_Cons del: ancestorsOf.simps(2))
      qed
    qed
  next
    case False
    note mx = False
    show ?thesis
    proof (cases "x \<in> set (pre ts)")
      case xt: True
      have ih: "y \<in> set (descendants x ts) \<longleftrightarrow> x \<in> set (ancestorsOf y ts) \<and> x \<noteq> y"
        using 2(1) d by simp
      show ?thesis
      proof (cases "y \<in> set (pre ts)")
        case True
        then have "m \<noteq> y" using d by auto
        then show ?thesis using mx xt True ih by (simp add: descendants_Cons anc_Cons del: ancestorsOf.simps(2))
      next
        case yt: False
        have a: "y \<notin> set (descendants x ts)" using descendants_subset [of x ts] yt by auto
        show ?thesis
        proof (cases "m = y")
          case True
          then show ?thesis using mx xt a by (auto simp: descendants_Cons)
        next
          case False
          have "x \<notin> set (ancestorsOf y us)" using sub [of y us] d xt by auto
          then show ?thesis using mx xt a yt False by (simp add: descendants_Cons anc_Cons del: ancestorsOf.simps(2))
        qed
      qed
    next
      case xt: False
      have ih: "y \<in> set (descendants x us) \<longleftrightarrow> x \<in> set (ancestorsOf y us) \<and> x \<noteq> y"
        using 2(2) d by simp
      show ?thesis
      proof (cases "y \<in> set (pre ts)")
        case True
        then have my: "m \<noteq> y" using d by auto
        have "x \<notin> set (ancestorsOf y ts)" using sub [of y ts] xt by auto
        moreover have "y \<notin> set (descendants x us)" using descendants_subset [of x us] True d by auto
        ultimately show ?thesis using mx xt True my by (simp add: descendants_Cons anc_Cons del: ancestorsOf.simps(2))
      next
        case yt: False
        show ?thesis
        proof (cases "m = y")
          case True
          have "y \<notin> set (descendants x us)" using descendants_subset [of x us] True d by auto
          then show ?thesis using mx xt True by (auto simp: descendants_Cons)
        next
          case False
          then show ?thesis using mx xt yt ih by (simp add: descendants_Cons anc_Cons del: ancestorsOf.simps(2))
        qed
      qed
    qed
  qed
qed

lemma ancestorsOf_root: "distinct (pre ts) \<Longrightarrow> y \<in> root ` set ts \<Longrightarrow> ancestorsOf y ts = [y]"
proof (induction ts rule: pre.induct)
  case 1
  then show ?case by simp
next
  case (2 m ts us)
  show ?case
  proof (cases "m = y")
    case True
    then show ?thesis by simp
  next
    case False
    then have yu: "y \<in> root ` set us" using 2(4) by auto
    then have "y \<in> set (pre us)" using roots_subset_pre' [of us] by auto
    then have "y \<notin> set (pre ts)" using 2(3) by auto
    then show ?thesis using False 2(2) 2(3) yu by (simp add: anc_Cons del: ancestorsOf.simps(2))
  qed
qed

lemma ancestorsOf_parent:
  "distinct (pre f) \<Longrightarrow> parentOf y f = Some h \<Longrightarrow> ancestorsOf y f = y # ancestorsOf h f"
proof (induction f arbitrary: y h rule: pre.induct)
  case 1
  then show ?case by simp
next
  case (2 m ts us)
  have d: "distinct (pre ts)" "distinct (pre us)" "m \<notin> set (pre ts)" "m \<notin> set (pre us)"
    "set (pre ts) \<inter> set (pre us) = {}" using 2(3) by auto
  show ?case
  proof (cases "y \<in> root ` set ts")
    case True
    then have h: "h = m" using 2(4) by simp
    have yt: "y \<in> set (pre ts)" using True roots_subset_pre' [of ts] by auto
    then have "m \<noteq> y" using d by auto
    then show ?thesis using ancestorsOf_root [OF d(1) True] yt h by (simp add: anc_Cons del: ancestorsOf.simps(2))
  next
    case False
    note nr = False
    show ?thesis
    proof (cases "parentOf y ts")
      case (Some p)
      then have hp: "h = p" using nr 2(4) by simp
      have in1: "y \<in> set (pre ts)" "p \<in> set (pre ts)" using parentOf_subset [OF Some] by simp_all
      then have ne: "m \<noteq> y" "m \<noteq> p" using d by auto
      have "ancestorsOf y ts = y # ancestorsOf p ts" using 2(1) d Some by simp
      then show ?thesis using in1 ne hp by (simp add: anc_Cons del: ancestorsOf.simps(2))
    next
      case None
      then have pu: "parentOf y us = Some h" using nr 2(4) by simp
      have in1: "y \<in> set (pre us)" "h \<in> set (pre us)" using parentOf_subset [OF pu] by simp_all
      then have ne: "m \<noteq> y" "m \<noteq> h" "y \<notin> set (pre ts)" "h \<notin> set (pre ts)" using d by auto
      have "ancestorsOf y us = y # ancestorsOf h us" using 2(2) d pu by simp
      then show ?thesis using ne by (simp add: anc_Cons del: ancestorsOf.simps(2))
    qed
  qed
qed

lemma ancestors_comparable:
  "distinct (pre f) \<Longrightarrow> x \<in> set (ancestorsOf b f) \<Longrightarrow> y \<in> set (ancestorsOf b f) \<Longrightarrow>
   x \<in> set (ancestorsOf y f) \<or> y \<in> set (ancestorsOf x f)"
proof (induction f arbitrary: x y b rule: pre.induct)
  case 1
  then show ?case by simp
next
  case (2 m ts us)
  have d: "distinct (pre ts)" "distinct (pre us)" "m \<notin> set (pre ts)" "m \<notin> set (pre us)"
    "set (pre ts) \<inter> set (pre us) = {}" using 2(3) by auto
  have sub: "\<And>z f. set (ancestorsOf z f) \<subseteq> set (pre f)" by (rule ancestorsOf_subset)
  show ?case
  proof (cases "m = b")
    case True
    then show ?thesis using 2(4,5) by simp
  next
    case False
    show ?thesis
    proof (cases "b \<in> set (pre ts)")
      case True
      then have ab: "ancestorsOf b (Tree m ts # us) = ancestorsOf b ts @ [m]"
        using False by (simp add: anc_Cons del: ancestorsOf.simps(2))
      have xy: "x \<in> set (ancestorsOf b ts) \<or> x = m" "y \<in> set (ancestorsOf b ts) \<or> y = m"
        using 2(4,5) ab by auto
      have up: "m \<in> set (ancestorsOf z (Tree m ts # us))" if "z \<in> set (ancestorsOf b ts) \<or> z = m" for z
      proof (cases "z = m")
        case True
        then show ?thesis by simp
      next
        case False
        then have "z \<in> set (pre ts)" using that sub [of b ts] by auto
        then show ?thesis using False by (simp add: anc_Cons del: ancestorsOf.simps(2))
      qed
      show ?thesis
      proof (cases "x = m \<or> y = m")
        case True
        then show ?thesis using up [OF xy(1)] up [OF xy(2)] by auto
      next
        case False
        then have in1: "x \<in> set (ancestorsOf b ts)" "y \<in> set (ancestorsOf b ts)" using xy by auto
        then have in2: "x \<in> set (pre ts)" "y \<in> set (pre ts)" using sub [of b ts] by auto
        have "x \<in> set (ancestorsOf y ts) \<or> y \<in> set (ancestorsOf x ts)"
          using 2(1) [OF d(1) in1] .
        then show ?thesis using in2 False by (auto simp: anc_Cons simp del: ancestorsOf.simps(2))
      qed
    next
      case bt: False
      then have ab: "ancestorsOf b (Tree m ts # us) = ancestorsOf b us"
        using False by (simp add: anc_Cons del: ancestorsOf.simps(2))
      have in1: "x \<in> set (ancestorsOf b us)" "y \<in> set (ancestorsOf b us)" using 2(4,5) ab by auto
      then have in2: "x \<in> set (pre us)" "y \<in> set (pre us)" using sub [of b us] by auto
      then have ne: "m \<noteq> x" "m \<noteq> y" "x \<notin> set (pre ts)" "y \<notin> set (pre ts)" using d by auto
      have "x \<in> set (ancestorsOf y us) \<or> y \<in> set (ancestorsOf x us)"
        using 2(2) [OF d(2) in1] .
      then show ?thesis using ne by (simp add: anc_Cons del: ancestorsOf.simps(2))
    qed
  qed
qed

lemma ancestors_trans:
  "distinct (pre f) \<Longrightarrow> x \<in> set (ancestorsOf y f) \<Longrightarrow> y \<in> set (ancestorsOf z f) \<Longrightarrow>
   x \<in> set (ancestorsOf z f)"
proof (induction f arbitrary: x y z rule: pre.induct)
  case 1
  then show ?case by simp
next
  case (2 m ts us)
  have d: "distinct (pre ts)" "distinct (pre us)" "m \<notin> set (pre ts)" "m \<notin> set (pre us)"
    "set (pre ts) \<inter> set (pre us) = {}" using 2(3) by auto
  have sub: "\<And>z f. set (ancestorsOf z f) \<subseteq> set (pre f)" by (rule ancestorsOf_subset)
  show ?case
  proof (cases "m = z")
    case True
    then have "y = m" using 2(5) by simp
    then have "x = m" using 2(4) by simp
    then show ?thesis using True by simp
  next
    case mz: False
    show ?thesis
    proof (cases "z \<in> set (pre ts)")
      case True
      then have az: "ancestorsOf z (Tree m ts # us) = ancestorsOf z ts @ [m]"
        using mz by (simp add: anc_Cons del: ancestorsOf.simps(2))
      show ?thesis
      proof (cases "y = m")
        case True
        then have "x = m" using 2(4) by simp
        then show ?thesis using az by simp
      next
        case False
        then have yz: "y \<in> set (ancestorsOf z ts)" using 2(5) az by auto
        then have yt: "y \<in> set (pre ts)" using sub [of z ts] by auto
        then have ay: "ancestorsOf y (Tree m ts # us) = ancestorsOf y ts @ [m]"
          using False by (simp add: anc_Cons del: ancestorsOf.simps(2))
        show ?thesis
        proof (cases "x = m")
          case True
          then show ?thesis using az by simp
        next
          case False
          then have "x \<in> set (ancestorsOf y ts)" using 2(4) ay by auto
          then have "x \<in> set (ancestorsOf z ts)" using 2(1) [OF d(1) _ yz] by simp
          then show ?thesis using az by simp
        qed
      qed
    next
      case False
      then have az: "ancestorsOf z (Tree m ts # us) = ancestorsOf z us"
        using mz by (simp add: anc_Cons del: ancestorsOf.simps(2))
      then have yz: "y \<in> set (ancestorsOf z us)" using 2(5) by simp
      then have yu: "y \<in> set (pre us)" using sub [of z us] by auto
      then have "m \<noteq> y" "y \<notin> set (pre ts)" using d by auto
      then have ay: "ancestorsOf y (Tree m ts # us) = ancestorsOf y us"
        by (simp add: anc_Cons del: ancestorsOf.simps(2))
      then have "x \<in> set (ancestorsOf y us)" using 2(4) by simp
      then have "x \<in> set (ancestorsOf z us)" using 2(2) [OF d(2) _ yz] by simp
      then show ?thesis using az by simp
    qed
  qed
qed

section \<open>Claims\<close>


subsection \<open>C1: one pass hides the oldest turns and reconciles the banner\<close>

text \<open>
  Claim C1. Let the page be a well-formed HTML document with at most one element carrying the
  id of the banner, and let the settings load with the (clamped) keep count \<open>K\<close>. Let \<open>T\<close> be
  the number of located turns. Then \<open>1 \<le> K\<close>, and one pass \<open>applyTrimming\<close> returns
  \<open>{ok: true, hiddenCount, totalCount: T, keepLastN: K}\<close> with \<open>hiddenCount = max 0 (T - K)\<close>.
  Afterwards the same turns are located, the turn at position \<open>j\<close> carries the hidden class
  and the hidden attribute with value \<open>1\<close> exactly when \<open>j < hiddenCount\<close> and otherwise
  carries neither, the banner element is in the document exactly when \<open>0 < hiddenCount\<close>,
  there is at most one, and its text is
  \<open>{hiddenCount} older messages hidden. Showing the last {K} turns ({T} total).\<close>
\<close>

theorem applyTrimming_hides_oldest:
  assumes "wellFormed s" and "singleBanner s" and "loadSettings s = Inr settings"
  defines "turns \<equiv> getConversationTurns s"
  defines "T \<equiv> int (length turns)"
  defines "K \<equiv> keepLastN settings"
  defines "hiddenCount \<equiv> max 0 (T - K)"
  defines "s' \<equiv> snd (applyTrimming s)"
  shows "1 \<le> K \<and>
    fst (applyTrimming s) =
      Inr [(''ok'', JBool True), (''hiddenCount'', JInt hiddenCount), (''totalCount'', JInt T),
           (''keepLastN'', JInt K)] \<and>
    getConversationTurns s' = turns \<and>
    (\<forall>j < length turns.
       (CLASSES_hiddenTurn \<in> classList (elems s' (turns ! j))) = (int j < hiddenCount) \<and>
       getAttribute (turns ! j) hiddenAttr s' = (if int j < hiddenCount then Some ''1'' else None)) \<and>
    (getElementById IDS_banner s' \<noteq> None) = (0 < hiddenCount) \<and>
    singleBanner s' \<and>
    (\<forall>b. getElementById IDS_banner s' = Some b \<longrightarrow>
       textContent (elems s' b) =
         numberToString hiddenCount @ '' older messages hidden. Showing the last '' @
         numberToString K @ '' turns ('' @ numberToString T @ '' total).'')"
proof -
  note sum = applyTrimming_summary [OF assms(1-3), folded turns_def, folded T_def K_def,
      folded hiddenCount_def, folded s'_def]
  have k: "1 \<le> K" using loadSettings_range [OF assms(3)] by (simp add: K_def)
  have r: "fst (applyTrimming s) =
      Inr [(''ok'', JBool True), (''hiddenCount'', JInt hiddenCount), (''totalCount'', JInt T),
           (''keepLastN'', JInt K)]"
    using sum(1) by (simp add: trimResult_def)
  have w: "wellFormed s' \<and> sameHost s s'" using psteps_wellFormed [OF sum(2) assms(1)] .
  then have t: "getConversationTurns s' = turns"
    using getConversationTurns_sameHost [OF assms(1)] by (simp add: turns_def)
  have m: "\<forall>j < length turns.
       (CLASSES_hiddenTurn \<in> classList (elems s' (turns ! j))) = (int j < hiddenCount) \<and>
       getAttribute (turns ! j) hiddenAttr s' = (if int j < hiddenCount then Some ''1'' else None)"
    using sum(3) by (simp add: hiddenOf_def getAttribute_def)
  have b: "(getElementById IDS_banner s' \<noteq> None) = (0 < hiddenCount) \<and> singleBanner s' \<and>
    (\<forall>b. getElementById IDS_banner s' = Some b \<longrightarrow>
       textContent (elems s' b) = bannerText hiddenCount T K)"
  proof (cases "0 < hiddenCount")
    case True
    then obtain b where b: "bannerNodes s' = (if bannerNodes s = [] then [b] else bannerNodes s)"
      "getElementById IDS_banner s' = Some b" "textContent (elems s' b) = bannerText hiddenCount T K"
      using sum(5) by auto
    have "singleBanner s'" using b(1) assms(2) by (simp add: singleBanner_def split: if_splits)
    then show ?thesis using True b by simp
  next
    case False
    then show ?thesis using sum(5) by (simp add: singleBanner_def)
  qed
  show ?thesis using k r t m b by (simp add: bannerText_def)
qed

theorem applyTrimming_hides_oldest_witness:
  "wellFormed demoPage \<and> singleBanner demoPage \<and>
   loadSettings demoPage =
     Inr \<lparr>keepLastN = 2, minimalUi = True, collapseOwnMessages = True, collapseCodeBlocks = True\<rparr> \<and>
   getConversationTurns demoPage = [5, 7, 10] \<and>
   fst (applyTrimming demoPage) =
     Inr [(''ok'', JBool True), (''hiddenCount'', JInt 1), (''totalCount'', JInt 3),
          (''keepLastN'', JInt 2)] \<and>
   CLASSES_hiddenTurn \<in> classList (elems (snd (applyTrimming demoPage)) 5) \<and>
   CLASSES_hiddenTurn \<notin> classList (elems (snd (applyTrimming demoPage)) 7) \<and>
   CLASSES_hiddenTurn \<notin> classList (elems (snd (applyTrimming demoPage)) 10) \<and>
   (\<exists>b. getElementById IDS_banner (snd (applyTrimming demoPage)) = Some b \<and>
        textContent (elems (snd (applyTrimming demoPage)) b) =
          ''1 older messages hidden. Showing the last 2 turns (3 total).'')"
proof -
  note t = applyTrimming_hides_oldest [OF wellFormed_demoPage singleBanner_demoPage
      loadSettings_demoPage, unfolded turns_demoPage]
  have n: "numberToString 1 = ''1''" "numberToString 2 = ''2''" "numberToString 3 = ''3''"
    by code_simp+
  have m: "(CLASSES_hiddenTurn \<in> classList (elems (snd (applyTrimming demoPage)) ([5, 7, 10] ! j))) =
      (int j < 1)" if "j < 3" for j
    using t that by simp
  obtain b where "getElementById IDS_banner (snd (applyTrimming demoPage)) = Some b"
    using t by auto
  then have "\<exists>b. getElementById IDS_banner (snd (applyTrimming demoPage)) = Some b \<and>
        textContent (elems (snd (applyTrimming demoPage)) b) =
          ''1 older messages hidden. Showing the last 2 turns (3 total).''"
    using t n by simp
  then show ?thesis
    using t m [of 0] m [of 1] m [of 2] wellFormed_demoPage singleBanner_demoPage
      loadSettings_demoPage turns_demoPage
    by simp
qed

subsection \<open>C10: the two hidden markers agree\<close>

text \<open>
  Claim C10. \<open>setTurnHidden\<close> sets the hidden class and the attribute
  \<^verbatim>\<open>data-cgpt-trimmer-hidden="1"\<close> of its turn together and clears them together, and touches
  no other element. Hence a pass \<open>applyTrimming\<close> and \<open>showAllTurns\<close> never make the
  markers of any element disagree, and after a completed pass and after show-all every turn
  that was located carries the class if and only if it carries the attribute with value 1.
\<close>

theorem hidden_markers_agree:
  "(CLASSES_hiddenTurn \<in> classList (elems (setTurnHidden turn hidden s) turn)) = hidden \<and>
   (getAttribute turn hiddenAttr (setTurnHidden turn hidden s) = Some ''1'') = hidden \<and>
   agreeKept s (setTurnHidden turn hidden s) \<and>
   agreeKept s (snd (applyTrimming s)) \<and>
   (\<forall>r. fst (applyTrimming s) = Inr r \<longrightarrow>
      (\<forall>t \<in> set (getConversationTurns (snd (ensureStyleTag s))).
         markersAgree (elems (snd (applyTrimming s)) t))) \<and>
   agreeKept s (showAllTurns s) \<and>
   (\<forall>t \<in> set (getConversationTurns s). markersAgree (elems (showAllTurns s) t))"
  using setTurnHidden_markers [of turn hidden s] setTurnHidden_agreeKept [of s turn hidden]
    applyTrimming_agree [of s] showAllTurns_agree [of s]
  by (simp add: getAttribute_def)

theorem hidden_markers_agree_witness:
  "markersAgree (elems demoPage 5) \<and>
   fst (applyTrimming demoPage) = Inr (trimResult 1 3 2) \<and>
   getConversationTurns (snd (ensureStyleTag demoPage)) = [5, 7, 10] \<and>
   getConversationTurns demoPage = [5, 7, 10] \<and>
   markersAgree (elems (setTurnHidden 5 True demoPage) 5) \<and>
   markersAgree (elems (snd (applyTrimming demoPage)) 5) \<and>
   markersAgree (elems (snd (applyTrimming demoPage)) 7) \<and>
   markersAgree (elems (snd (applyTrimming demoPage)) 10) \<and>
   markersAgree (elems (showAllTurns demoPage) 5)"
proof -
  have a: "markersAgree (elems demoPage 5)"
    by (simp add: markersAgree_def demoPage_def demoElems_def mk_def blankElement_def names_defs)
  note t = hidden_markers_agree [of 5 True demoPage]
  have "agreeKept demoPage (setTurnHidden 5 True demoPage)" using t by simp
  then have b: "markersAgree (elems (setTurnHidden 5 True demoPage) 5)"
    using a by (simp add: agreeKept_def)
  show ?thesis
    using a b t applyTrimming_demoPage turns_styled_demoPage turns_demoPage by simp
qed

subsection \<open>C9: the turn locator\<close>

text \<open>
  Claim C9. \<open>getConversationTurns\<close> never fails and returns, in document order, exactly the
  elements of the document that match the primary selector if any element of the document
  matches it and the fallback selector otherwise, that are contained in the thread root (the
  first element with id \<open>thread\<close>) if there is one, and that are HTML elements. In particular
  the fallback selector is consulted only when the primary selector matches nothing, and the
  result is the empty list when neither selector matches an element.
\<close>

theorem getConversationTurns_locates:
  "getConversationTurns s =
     filter (\<lambda>n.
        (if \<exists>m \<in> set (pre (document s)). conversationTurnsPrimary (elems s m)
         then conversationTurnsPrimary (elems s n)
         else conversationTurnsFallback (elems s n)) \<and>
        (case querySelector threadRoot s of Some r \<Rightarrow> contains r n s | None \<Rightarrow> True) \<and>
        isHTMLElement (elems s n))
       (pre (document s)) \<and>
   ((\<forall>m \<in> set (pre (document s)).
       \<not> conversationTurnsPrimary (elems s m) \<and> \<not> conversationTurnsFallback (elems s m)) \<longrightarrow>
    getConversationTurns s = [])"
proof -
  let ?P = "\<lambda>n. conversationTurnsPrimary (elems s n)"
  have e: "(filter ?P (pre (document s)) = []) = (\<not> (\<exists>m \<in> set (pre (document s)). ?P m))"
    by (simp add: filter_empty_conv)
  show ?thesis
  proof (cases "\<exists>m \<in> set (pre (document s)). ?P m")
    case True
    then have "filter ?P (pre (document s)) \<noteq> []" using e by simp
    then show ?thesis using True
      by (cases "querySelector threadRoot s")
         (auto simp: getConversationTurns_def Let_def querySelectorAll_def intro: filter_cong)
  next
    case False
    then have "filter ?P (pre (document s)) = []" using e by simp
    then show ?thesis using False
      by (cases "querySelector threadRoot s")
         (auto simp: getConversationTurns_def Let_def querySelectorAll_def filter_empty_conv
            intro: filter_cong)
  qed
qed

theorem getConversationTurns_locates_witness:
  "querySelector threadRoot demoPage = Some 4 \<and>
   querySelectorAll conversationTurnsPrimary demoPage = [5, 7, 10] \<and>
   querySelectorAll conversationTurnsFallback demoPage = [] \<and>
   getConversationTurns demoPage = [5, 7, 10] \<and>
   getConversationTurns (demoPage\<lparr>document := [Tree 1 [Tree 2 []]]\<rparr>) = []"
proof -
  have "getConversationTurns demoPage =
     filter (\<lambda>n.
        (if \<exists>m \<in> set (pre (document demoPage)). conversationTurnsPrimary (elems demoPage m)
         then conversationTurnsPrimary (elems demoPage n)
         else conversationTurnsFallback (elems demoPage n)) \<and>
        (case querySelector threadRoot demoPage of Some r \<Rightarrow> contains r n demoPage | None \<Rightarrow> True) \<and>
        isHTMLElement (elems demoPage n))
       (pre (document demoPage))"
    using getConversationTurns_locates [of demoPage] by blast
  also have "\<dots> = [5, 7, 10]" by code_simp
  finally have a: "getConversationTurns demoPage = [5, 7, 10]" .
  have "\<forall>m \<in> set (pre (document (demoPage\<lparr>document := [Tree 1 [Tree 2 []]]\<rparr>))).
       \<not> conversationTurnsPrimary (elems (demoPage\<lparr>document := [Tree 1 [Tree 2 []]]\<rparr>) m) \<and>
       \<not> conversationTurnsFallback (elems (demoPage\<lparr>document := [Tree 1 [Tree 2 []]]\<rparr>) m)"
    by code_simp
  then have b: "getConversationTurns (demoPage\<lparr>document := [Tree 1 [Tree 2 []]]\<rparr>) = []"
    using getConversationTurns_locates [of "demoPage\<lparr>document := [Tree 1 [Tree 2 []]]\<rparr>"] by blast
  have c: "querySelector threadRoot demoPage = Some 4"
    "querySelectorAll conversationTurnsPrimary demoPage = [5, 7, 10]"
    "querySelectorAll conversationTurnsFallback demoPage = []"
    by code_simp+
  show ?thesis using a b c by simp
qed

subsection \<open>C8: disabling a collapse feature\<close>

text \<open>
  Claim C8. For every page state and every turn list, applying the collapse of user messages
  with \<open>enabled = false\<close> does not fail and leaves in the document no button with the class of
  the message toggle and no element with the class of a collapsed user message; applying the
  collapse of code blocks with \<open>enabled = false\<close> does the same for the code toggles and the
  class of a collapsed code block. Both leave the two collapse-state maps as they were,
  whatever they contain.
\<close>

theorem disabled_feature_is_cleaned_up:
  "fst (applyMessageCollapsers turns False s) = None \<and>
   querySelectorAll (buttonWithClass CLASSES_messageToggle)
     (snd (applyMessageCollapsers turns False s)) = [] \<and>
   querySelectorAll (withClass CLASSES_collapsedUserMessage)
     (snd (applyMessageCollapsers turns False s)) = [] \<and>
   messages (snd (applyMessageCollapsers turns False s)) = messages s \<and>
   codeBlocks (snd (applyMessageCollapsers turns False s)) = codeBlocks s \<and>
   fst (applyCodeCollapsers turns False s) = None \<and>
   querySelectorAll (buttonWithClass CLASSES_codeToggle)
     (snd (applyCodeCollapsers turns False s)) = [] \<and>
   querySelectorAll (withClass CLASSES_collapsedCodeBlock)
     (snd (applyCodeCollapsers turns False s)) = [] \<and>
   messages (snd (applyCodeCollapsers turns False s)) = messages s \<and>
   codeBlocks (snd (applyCodeCollapsers turns False s)) = codeBlocks s"
  using cleanup_removes [of CLASSES_messageToggle CLASSES_collapsedUserMessage s]
    cleanup_removes [of CLASSES_codeToggle CLASSES_collapsedCodeBlock s]
  by (simp add: applyMessageCollapsers_def applyCodeCollapsers_def cleanupMessageCollapsers_def
      cleanupCodeCollapsers_def Let_def)

subsection \<open>C5: the show-all request\<close>

text \<open>
  Claim C5. For every page state, the listener handles a message of type
  \<^verbatim>\<open>TRIMMER_SHOW_ALL\<close> by sending exactly the one response \<open>{ok: true, hiddenCount: 0}\<close>.
  Afterwards no located turn carries the hidden class or the hidden attribute, the banner
  element found by its id is no longer in the document, and nothing else is written: the
  storage, the two collapse-state maps, the listeners of the toggles and every element other
  than the located turns are as before, and a located turn differs only by its hidden
  markers. On a well-formed page with at most one element carrying the id of the banner,
  no banner is left, the same turns are located and the toggle buttons in the document are
  the same.
\<close>

theorem show_all_request:
  fixes s :: page
  assumes "m ''type'' = Some (JStr ''TRIMMER_SHOW_ALL'')"
  defines "s' \<equiv> snd (onMessage (Object m) s)"
  shows "fst (onMessage (Object m) s) = Inr False \<and>
    sent s' = sent s @ [[(''ok'', JBool True), (''hiddenCount'', JInt 0)]] \<and>
    (\<forall>t \<in> set (getConversationTurns s).
       CLASSES_hiddenTurn \<notin> classList (elems s' t) \<and> getAttribute t hiddenAttr s' = None) \<and>
    (\<forall>b. getElementById IDS_banner s = Some b \<longrightarrow> b \<notin> set (pre (document s'))) \<and>
    storage s' = storage s \<and> messages s' = messages s \<and> codeBlocks s' = codeBlocks s \<and>
    messageListeners s' = messageListeners s \<and> codeListeners s' = codeListeners s \<and>
    (\<forall>n. elems s' n =
       (if n \<in> set (getConversationTurns s)
        then (elems s n)\<lparr>classList := classList (elems s n) - {CLASSES_hiddenTurn},
                         attributes := (attributes (elems s n))(hiddenAttr := None)\<rparr>
        else elems s n)) \<and>
    (wellFormed s \<and> singleBanner s \<longrightarrow>
       getElementById IDS_banner s' = None \<and>
       getConversationTurns s' = getConversationTurns s \<and>
       querySelectorAll (buttonWithClass CLASSES_messageToggle) s' =
         querySelectorAll (buttonWithClass CLASSES_messageToggle) s \<and>
       querySelectorAll (buttonWithClass CLASSES_codeToggle) s' =
         querySelectorAll (buttonWithClass CLASSES_codeToggle) s \<and>
       wellFormed s' \<and> singleBanner s')"
proof -
  have ne: "m ''type'' \<noteq> Some (JStr ''TRIMMER_APPLY'')" using assms(1) by simp
  have r: "onMessage (Object m) s =
     (Inr False, (showAllTurns s)\<lparr>sent := sent (showAllTurns s) @
        [[(''ok'', JBool True), (''hiddenCount'', JInt 0)]]\<rparr>)"
    using assms(1) ne by (simp add: onMessage_def sendResponse_def)
  let ?u = "showAllTurns s"
  let ?r = "[(''ok'', JBool True), (''hiddenCount'', JInt 0)]"
  have s': "s' = ?u\<lparr>sent := sent ?u @ [?r]\<rparr>" by (simp add: s'_def r)
  note e = showAllTurns_effect [of s]
  have v: "querySelectorAll sel s' = querySelectorAll sel ?u" for sel by (simp add: s')
  have g: "getElementById i s' = getElementById i ?u" for i by (simp add: s')
  have t: "getConversationTurns s' = getConversationTurns ?u" by (simp add: s')
  have w: "wellFormed s' = wellFormed ?u" by (simp add: s')
  have b: "singleBanner s' = singleBanner ?u" by (simp add: s')
  have 1: "fst (onMessage (Object m) s) = Inr False" by (simp add: r)
  have 2: "sent s' = sent s @ [?r]" using e by (simp add: s')
  have 3: "\<forall>t \<in> set (getConversationTurns s).
       CLASSES_hiddenTurn \<notin> classList (elems s' t) \<and> getAttribute t hiddenAttr s' = None"
    using e by (simp add: s' shown_def getAttribute_def)
  have 4: "\<forall>b. getElementById IDS_banner s = Some b \<longrightarrow> b \<notin> set (pre (document s'))"
    using e by (simp add: s')
  have 5: "storage s' = storage s \<and> messages s' = messages s \<and> codeBlocks s' = codeBlocks s \<and>
    messageListeners s' = messageListeners s \<and> codeListeners s' = codeListeners s"
    using e by (simp add: s')
  have 6: "\<forall>n. elems s' n =
       (if n \<in> set (getConversationTurns s)
        then (elems s n)\<lparr>classList := classList (elems s n) - {CLASSES_hiddenTurn},
                         attributes := (attributes (elems s n))(hiddenAttr := None)\<rparr>
        else elems s n)"
    using e by (simp add: s' shown_def)
  have 7: "wellFormed s \<and> singleBanner s \<longrightarrow>
       getElementById IDS_banner s' = None \<and>
       getConversationTurns s' = getConversationTurns s \<and>
       querySelectorAll (buttonWithClass CLASSES_messageToggle) s' =
         querySelectorAll (buttonWithClass CLASSES_messageToggle) s \<and>
       querySelectorAll (buttonWithClass CLASSES_codeToggle) s' =
         querySelectorAll (buttonWithClass CLASSES_codeToggle) s \<and>
       wellFormed s' \<and> singleBanner s'"
    using showAllTurns_wellFormed [of s] by (simp add: v g t w b)
  show ?thesis using 1 2 3 4 5 6 7 by blast
qed

theorem show_all_request_witness:
  "[''type'' \<mapsto> JStr ''TRIMMER_SHOW_ALL''] ''type'' = Some (JStr ''TRIMMER_SHOW_ALL'') \<and>
   wellFormed trimmedPage \<and> singleBanner trimmedPage \<and>
   getConversationTurns trimmedPage = [5, 7, 10] \<and>
   CLASSES_hiddenTurn \<in> classList (elems trimmedPage 5) \<and>
   getElementById IDS_banner trimmedPage \<noteq> None \<and>
   CLASSES_hiddenTurn \<notin>
     classList (elems (snd (onMessage (Object [''type'' \<mapsto> JStr ''TRIMMER_SHOW_ALL'']) trimmedPage)) 5) \<and>
   getElementById IDS_banner
     (snd (onMessage (Object [''type'' \<mapsto> JStr ''TRIMMER_SHOW_ALL'']) trimmedPage)) = None \<and>
   sent (snd (onMessage (Object [''type'' \<mapsto> JStr ''TRIMMER_SHOW_ALL'']) trimmedPage)) =
     [[(''ok'', JBool True), (''hiddenCount'', JInt 0)]] \<and>
   storage (snd (onMessage (Object [''type'' \<mapsto> JStr ''TRIMMER_SHOW_ALL'']) trimmedPage)) =
     storage trimmedPage"
proof -
  have m: "[''type'' \<mapsto> JStr ''TRIMMER_SHOW_ALL''] ''type'' = Some (JStr ''TRIMMER_SHOW_ALL'')"
    by simp
  note t = show_all_request [of "[''type'' \<mapsto> JStr ''TRIMMER_SHOW_ALL'']" trimmedPage, OF m]
  have h: "CLASSES_hiddenTurn \<in> classList (elems trimmedPage 5)"
    using trimmedPage_facts(6) by (simp add: hiddenOf_def)
  have b: "getElementById IDS_banner trimmedPage \<noteq> None" using trimmedPage_facts(9) by auto
  have "5 \<in> set (getConversationTurns trimmedPage)" by (simp add: trimmedPage_facts(3))
  then have c: "CLASSES_hiddenTurn \<notin>
     classList (elems (snd (onMessage (Object [''type'' \<mapsto> JStr ''TRIMMER_SHOW_ALL'']) trimmedPage)) 5)"
    using t by blast
  show ?thesis
    using m h b c t trimmedPage_facts(1,2,3,5) by simp
qed

subsection \<open>C6: the apply request\<close>

text \<open>
  Claim C6. For every page state, the listener handles a message of type \<^verbatim>\<open>TRIMMER_APPLY\<close> by
  returning \<open>true\<close>; no error leaves it. It sends exactly one response. While the extension
  context is valid, the normalized settings of the message are written to the storage (and
  load back unchanged), one pass \<open>applyTrimming\<close> runs on the page with these settings, and the
  response is the result of the pass, or \<open>{ok: false, error: String(error)}\<close> when the pass
  fails. On a well-formed page with at most one element carrying the id of the banner the
  pass does not fail and the response is \<open>{ok: true, hiddenCount, totalCount, keepLastN}\<close>
  with the clamped keep count of the message. When the extension context is invalid, saving
  fails, nothing else is changed and the response is
  \<open>{ok: false, error: "Error: Extension context invalidated."}\<close>.
\<close>

theorem apply_request:
  fixes s :: page
  assumes "m ''type'' = Some (JStr ''TRIMMER_APPLY'')"
  defines "nextSettings \<equiv>
     \<lparr>keepLastN = clampKeepLastN (field m ''keepLastN''),
      minimalUi = toBoolean (field m ''minimalUi''),
      collapseOwnMessages = toBoolean (field m ''collapseOwnMessages''),
      collapseCodeBlocks = toBoolean (field m ''collapseCodeBlocks'')\<rparr>"
  defines "saved \<equiv>
     s\<lparr>storage := (storage s)
          (''keepLastN'' \<mapsto> JInt (keepLastN nextSettings),
           ''minimalUi'' \<mapsto> JBool (minimalUi nextSettings),
           ''collapseOwnMessages'' \<mapsto> JBool (collapseOwnMessages nextSettings),
           ''collapseCodeBlocks'' \<mapsto> JBool (collapseCodeBlocks nextSettings))\<rparr>"
  defines "s' \<equiv> snd (onMessage (Object m) s)"
  shows "fst (onMessage (Object m) s) = Inr True \<and>
    (if contextValid s
     then loadSettings saved = Inr nextSettings \<and>
          storage s' = storage saved \<and>
          s' = (snd (applyTrimming saved))
                 \<lparr>sent := sent s @
                    [case fst (applyTrimming saved) of
                       Inr result \<Rightarrow> result
                     | Inl error \<Rightarrow> [(''ok'', JBool False), (''error'', JStr (errorToString error))]]\<rparr> \<and>
          (wellFormed s \<and> singleBanner s \<longrightarrow>
             fst (applyTrimming saved) =
               Inr [(''ok'', JBool True),
                    (''hiddenCount'',
                       JInt (max 0 (int (length (getConversationTurns s)) - keepLastN nextSettings))),
                    (''totalCount'', JInt (int (length (getConversationTurns s)))),
                    (''keepLastN'', JInt (keepLastN nextSettings))])
     else s' = s\<lparr>sent := sent s @
                  [[(''ok'', JBool False),
                    (''error'', JStr ''Error: Extension context invalidated.'')]]\<rparr>)"
proof (cases "contextValid s")
  case False
  have "onMessage (Object m) s =
     (Inr True, s\<lparr>sent := sent s @
                  [[(''ok'', JBool False),
                    (''error'', JStr ''Error: Extension context invalidated.'')]]\<rparr>)"
    using assms(1) False
    by (simp add: onMessage_def saveSettings_def thenP_def catchP_def sendResponse_def
        errorToString_def ExtensionContextInvalidated_def)
  then show ?thesis using False by (simp add: s'_def)
next
  case True
  note sv = saveSettings_valid [OF True, of nextSettings]
  have sn: "snd (saveSettings nextSettings s) = saved" by (simp add: sv(1) saved_def)
  have "loadSettings saved =
     Inr \<lparr>keepLastN = clampKeepLastN (JInt (keepLastN nextSettings)),
          minimalUi = minimalUi nextSettings,
          collapseOwnMessages = collapseOwnMessages nextSettings,
          collapseCodeBlocks = collapseCodeBlocks nextSettings\<rparr>"
    using sv(2) unfolding sn .
  also have "\<dots> = Inr nextSettings" by (simp add: nextSettings_def clampKeepLastN_idem)
  finally have l: "loadSettings saved = Inr nextSettings" .
  have sv1: "saveSettings nextSettings s = (Inr (), saved)" using sv(1) by (simp add: saved_def)
  obtain r s2 where a: "applyTrimming saved = (r, s2)" by fastforce
  have k: "keepsStore saved s2" using applyTrimming_keepsStore [of saved] a by simp
  have st: "sent s2 = sent s" "storage s2 = storage saved"
    using k sv(6) by (simp_all add: keepsStore_def sn)
  let ?resp = "case r of Inr result \<Rightarrow> result
     | Inl error \<Rightarrow> [(''ok'', JBool False), (''error'', JStr (errorToString error))]"
  have o: "onMessage (Object m) s = (Inr True, s2\<lparr>sent := sent s @ [?resp]\<rparr>)"
    using assms(1) sv1 a st
    by (cases r)
       (simp_all add: onMessage_def thenP_def catchP_def sendResponse_def Let_def
          nextSettings_def [symmetric])
  have w: "fst (applyTrimming saved) =
      Inr (trimResult (max 0 (int (length (getConversationTurns s)) - keepLastN nextSettings))
             (int (length (getConversationTurns s))) (keepLastN nextSettings))"
    if "wellFormed s" "singleBanner s"
  proof -
    have "wellFormed saved" "singleBanner saved" using that sv(3,4) by (simp_all add: sn)
    then show ?thesis using applyTrimming_summary(1) [OF _ _ l] sv(5) by (simp add: sn)
  qed
  show ?thesis using True o l a st w by (simp add: s'_def trimResult_def)
qed

theorem apply_request_witness:
  "[''type'' \<mapsto> JStr ''TRIMMER_APPLY'', ''keepLastN'' \<mapsto> JStr ''2''] ''type'' =
     Some (JStr ''TRIMMER_APPLY'') \<and>
   contextValid demoPage \<and> wellFormed demoPage \<and> singleBanner demoPage \<and>
   fst (onMessage (Object [''type'' \<mapsto> JStr ''TRIMMER_APPLY'', ''keepLastN'' \<mapsto> JStr ''2''])
          demoPage) = Inr True \<and>
   sent (snd (onMessage (Object [''type'' \<mapsto> JStr ''TRIMMER_APPLY'', ''keepLastN'' \<mapsto> JStr ''2''])
          demoPage)) =
     [[(''ok'', JBool True), (''hiddenCount'', JInt 1), (''totalCount'', JInt 3),
       (''keepLastN'', JInt 2)]] \<and>
   storage (snd (onMessage (Object [''type'' \<mapsto> JStr ''TRIMMER_APPLY'', ''keepLastN'' \<mapsto> JStr ''2''])
          demoPage)) ''keepLastN'' = Some (JInt 2) \<and>
   \<not> contextValid (demoPage\<lparr>contextValid := False\<rparr>) \<and>
   snd (onMessage (Object [''type'' \<mapsto> JStr ''TRIMMER_APPLY'', ''keepLastN'' \<mapsto> JStr ''2''])
          (demoPage\<lparr>contextValid := False\<rparr>)) =
     demoPage\<lparr>contextValid := False,
       sent := [[(''ok'', JBool False), (''error'', JStr ''Error: Extension context invalidated.'')]]\<rparr>"
proof -
  let ?m = "[''type'' \<mapsto> JStr ''TRIMMER_APPLY'', ''keepLastN'' \<mapsto> JStr ''2'']"
  have m: "?m ''type'' = Some (JStr ''TRIMMER_APPLY'')" by simp
  have c: "clampKeepLastN (field ?m ''keepLastN'') = 2" by code_simp
  have v: "contextValid demoPage" "sent demoPage = []" by (simp_all add: demoPage_def)
  note t = apply_request [of ?m demoPage, OF m]
  note f = apply_request [of ?m "demoPage\<lparr>contextValid := False\<rparr>", OF m]
  have 1: "fst (onMessage (Object ?m) demoPage) = Inr True" using t by blast
  have 2: "sent (snd (onMessage (Object ?m) demoPage)) =
     [[(''ok'', JBool True), (''hiddenCount'', JInt 1), (''totalCount'', JInt 3),
       (''keepLastN'', JInt 2)]]"
    using t v wellFormed_demoPage singleBanner_demoPage turns_demoPage c by simp
  note a = t [THEN conjunct2, unfolded if_P [OF v(1)]]
  have 3: "storage (snd (onMessage (Object ?m) demoPage)) ''keepLastN'' = Some (JInt 2)"
    using a [THEN conjunct2, THEN conjunct1] by (simp add: c)
  have 4: "snd (onMessage (Object ?m) (demoPage\<lparr>contextValid := False\<rparr>)) =
     demoPage\<lparr>contextValid := False,
       sent := [[(''ok'', JBool False), (''error'', JStr ''Error: Extension context invalidated.'')]]\<rparr>"
    using f v by simp
  show ?thesis using m v wellFormed_demoPage singleBanner_demoPage 1 2 3 4 by simp
qed

subsection \<open>C4: entries of the collapse-state maps\<close>



subsection \<open>C7: the escape hatch\<close>



end
